theory Spec2Isabelle
  imports Main "HOL-Library.Word" "HOL-Library.Multiset" "HOL-Library.AList"
begin

unbundle bit_operations_syntax

section \<open>Board: two bitboards, side to move and an incremental Zobrist key\<close>

text \<open>
  The header \<^verbatim>\<open>board.h\<close> is not part of the sources at hand. What the implementation
  file relies on from it is taken from the implementation's own comments: a cell
  \<open>(x, y)\<close> has linear index \<open>y * 12 + x\<close>, the chunk is \<open>idx >> 6\<close>, the bit offset is
  \<open>idx & 63\<close>, the enum \<open>Player\<close> converts to 0 (Black) or 1 (White), and a \<open>Move\<close> is a pair
  of \<open>int\<close> coordinates.
\<close>

datatype Player = Black | White

fun playerIndex :: "Player \<Rightarrow> nat" where
  "playerIndex Black = 0"
| "playerIndex White = 1"

datatype Move = Move (mv_x: int) (mv_y: int)

definition index :: "int \<Rightarrow> int \<Rightarrow> int" where
  "index x y = y * 12 + x"

definition chunkOf :: "int \<Rightarrow> int" where
  "chunkOf idx = drop_bit 6 idx"

definition offsetOf :: "int \<Rightarrow> int" where
  "offsetOf idx = idx AND 63"

text \<open>
  The Zobrist numbers are drawn once from the standard library's 64-bit Mersenne twister;
  the generator is not code of this repository, so the table and the side marker are
  parameters of the model.
\<close>

record Zobrist =
  zobristTable :: "int \<Rightarrow> int \<Rightarrow> nat \<Rightarrow> 64 word"
  zobristSide :: "64 word"

record Board =
  bb :: "nat \<Rightarrow> nat \<Rightarrow> 64 word"
  side_to_move :: Player
  hashKey :: "64 word"

definition bitMask :: "int \<Rightarrow> 64 word" where
  "bitMask off = push_bit (nat off) 1"

definition otherPlayer :: "Player \<Rightarrow> Player" where
  "otherPlayer p = (if p = Black then White else Black)"

definition placeBit :: "Board \<Rightarrow> nat \<Rightarrow> int \<Rightarrow> int \<Rightarrow> Board" where
  "placeBit b p x y =
     (let idx = index x y; c = nat (chunkOf idx); off = offsetOf idx
      in b\<lparr>bb := (bb b)(p := (bb b p)(c := bb b p c OR bitMask off))\<rparr>)"

definition emptyBoard :: Board where
  "emptyBoard = \<lparr>bb = (\<lambda>p c. 0), side_to_move = Black, hashKey = 0\<rparr>"

definition placeInitial :: "Zobrist \<Rightarrow> Board \<Rightarrow> Player \<Rightarrow> int \<times> int \<Rightarrow> Board" where
  "placeInitial z b pl pos =
     (let b1 = placeBit b (playerIndex pl) (fst pos) (snd pos)
      in b1\<lparr>hashKey := hashKey b1 XOR zobristTable z (fst pos) (snd pos) (playerIndex pl)\<rparr>)"

definition newBoard :: "Zobrist \<Rightarrow> Board" where
  "newBoard z =
     (let b0 = emptyBoard;
          b1 = foldl (\<lambda>b pos. placeInitial z b White pos) b0 [(6, 6), (5, 5)];
          b2 = foldl (\<lambda>b pos. placeInitial z b Black pos) b1 [(6, 5), (5, 6)]
      in b2\<lparr>side_to_move := Black\<rparr>)"

definition isOccupied :: "Board \<Rightarrow> int \<Rightarrow> int \<Rightarrow> bool" where
  "isOccupied b x y =
     (if x < 0 \<or> x \<ge> 12 \<or> y < 0 \<or> y \<ge> 12 then True
      else let idx = index x y; c = nat (chunkOf idx); off = offsetOf idx;
               mask = bitMask off
           in (bb b 0 c OR bb b 1 c) AND mask \<noteq> 0)"

definition makeMove :: "Zobrist \<Rightarrow> Board \<Rightarrow> int \<Rightarrow> int \<Rightarrow> bool \<times> Board" where
  "makeMove z b x y =
     (if x < 0 \<or> x \<ge> 12 \<or> y < 0 \<or> y \<ge> 12 then (False, b)
      else if isOccupied b x y then (False, b)
      else let idx = index x y; c = nat (chunkOf idx); off = offsetOf idx;
               playerIdx = playerIndex (side_to_move b);
               b1 = b\<lparr>bb := (bb b)(playerIdx := (bb b playerIdx)(c := bb b playerIdx c OR bitMask off))\<rparr>;
               b2 = b1\<lparr>hashKey := hashKey b1 XOR zobristTable z x y playerIdx\<rparr>;
               b3 = b2\<lparr>side_to_move := (if side_to_move b2 = Black then White else Black)\<rparr>;
               b4 = b3\<lparr>hashKey := hashKey b3 XOR zobristSide z\<rparr>
           in (True, b4))"

definition unmakeMove :: "Zobrist \<Rightarrow> Board \<Rightarrow> int \<Rightarrow> int \<Rightarrow> bool \<times> Board" where
  "unmakeMove z b x y =
     (let b1 = b\<lparr>side_to_move := (if side_to_move b = Black then White else Black)\<rparr>;
          b2 = b1\<lparr>hashKey := hashKey b1 XOR zobristSide z\<rparr>;
          idx = index x y; c = nat (chunkOf idx); off = offsetOf idx;
          mask = bitMask off;
          p = playerIndex (side_to_move b2);
          b3 = b2\<lparr>bb := (bb b2)(p := (bb b2 p)(c := bb b2 p c AND NOT mask))\<rparr>;
          b4 = b3\<lparr>hashKey := hashKey b3 XOR zobristTable z x y p\<rparr>
      in (True, b4))"

definition getCellState :: "Board \<Rightarrow> int \<Rightarrow> int \<Rightarrow> int" where
  "getCellState b x y =
     (if x < 0 \<or> x \<ge> 12 \<or> y < 0 \<or> y \<ge> 12 then - 1
      else let idx = index x y; c = nat (chunkOf idx); off = offsetOf idx;
               mask = bitMask off
           in if bb b (playerIndex Black) c AND mask \<noteq> 0 then 1
              else if bb b (playerIndex White) c AND mask \<noteq> 0 then 2
              else 0)"

definition sideToMove :: "Board \<Rightarrow> Player" where
  "sideToMove b = side_to_move b"

definition getHashKey :: "Board \<Rightarrow> 64 word" where
  "getHashKey b = hashKey b"

subsection \<open>Bit-level facts about the board\<close>

lemma offsetOf_mod: "offsetOf idx = idx mod 64"
  using take_bit_eq_mask[of 6 idx] take_bit_eq_mod[of 6 idx]
  by (simp add: offsetOf_def mask_eq_exp_minus_1)

lemma chunkOf_div: "chunkOf idx = idx div 64"
  by (simp add: chunkOf_def drop_bit_eq_div)

definition stoneAt :: "Board \<Rightarrow> nat \<Rightarrow> int \<Rightarrow> int \<Rightarrow> bool" where
  "stoneAt b p x y = bit (bb b p (nat (chunkOf (index x y)))) (nat (offsetOf (index x y)))"

definition onBoard :: "int \<Rightarrow> int \<Rightarrow> bool" where
  "onBoard x y = (0 \<le> x \<and> x < 12 \<and> 0 \<le> y \<and> y < 12)"

lemma offset_lt: "onBoard x y \<Longrightarrow> nat (offsetOf (index x y)) < 64"
  by (simp add: offsetOf_mod onBoard_def index_def)

lemma bitMask_test: "((w :: 64 word) AND bitMask off \<noteq> 0) = bit w (nat off)"
  unfolding bitMask_def by (rule bit_iff_and_push_bit_not_eq_0 [symmetric])

lemma bitMask_test0: "((w :: 64 word) AND bitMask off = 0) = (\<not> bit w (nat off))"
  using bitMask_test[of w off] by blast

lemma bit_bitMask: "bit (bitMask off) n = (n = nat off \<and> n < 64)"
  by (auto simp: bitMask_def bit_simps)

lemma bit_or_bitMask: "bit ((w :: 64 word) OR bitMask off) n = (bit w n \<or> (n = nat off \<and> n < 64))"
  by (simp add: bit_or_iff bit_bitMask)

lemma bit_clear_bitMask: "bit ((w :: 64 word) AND NOT (bitMask off)) n = (bit w n \<and> n \<noteq> nat off)"
  by (auto simp: bit_and_iff bit_not_iff bit_bitMask dest: bit_imp_le_length)

lemma set_clear_bitMask:
  "\<not> bit (w :: 64 word) (nat off) \<Longrightarrow> (w OR bitMask off) AND NOT (bitMask off) = w"
  by (rule bit_eqI) (auto simp: bit_clear_bitMask bit_or_bitMask)

lemma cell_inj:
  assumes "onBoard x y" "onBoard x' y'"
    "nat (chunkOf (index x y)) = nat (chunkOf (index x' y'))"
    "nat (offsetOf (index x y)) = nat (offsetOf (index x' y'))"
  shows "x = x' \<and> y = y'"
proof -
  have a: "0 \<le> index x y" "0 \<le> index x' y'" using assms by (auto simp: onBoard_def index_def)
  have "index x y div 64 = index x' y' div 64" "index x y mod 64 = index x' y' mod 64"
    using assms a by (simp_all add: chunkOf_div offsetOf_mod nat_eq_iff pos_imp_zdiv_nonneg_iff)
  then have "index x y = index x' y'"
    by (metis mult_div_mod_eq)
  then have "y * 12 + x = y' * 12 + x'" by (simp add: index_def)
  moreover have "0 \<le> x" "x < 12" "0 \<le> x'" "x' < 12" using assms by (auto simp: onBoard_def)
  ultimately show ?thesis by presburger
qed

lemma isOccupied_stone:
  "onBoard x y \<Longrightarrow> isOccupied b x y = (stoneAt b 0 x y \<or> stoneAt b 1 x y)"
  by (simp add: isOccupied_def Let_def stoneAt_def bitMask_test onBoard_def bit_or_iff)

lemma getCellState_stone:
  "onBoard x y \<Longrightarrow> getCellState b x y = (if stoneAt b 0 x y then 1 else if stoneAt b 1 x y then 2 else 0)"
  by (simp add: getCellState_def Let_def stoneAt_def bitMask_test onBoard_def)

text \<open>effect of makeMove on the stone bits\<close>

lemma makeMove_fail:
  "\<not> onBoard x y \<or> isOccupied b x y \<Longrightarrow> makeMove z b x y = (False, b)"
  by (auto simp: makeMove_def onBoard_def)

lemma makeMove_ok:
  assumes "onBoard x y" "\<not> isOccupied b x y"
  shows "makeMove z b x y =
    (True, b\<lparr>bb := (bb b)(playerIndex (side_to_move b) :=
                 (bb b (playerIndex (side_to_move b)))(nat (chunkOf (index x y)) :=
                    bb b (playerIndex (side_to_move b)) (nat (chunkOf (index x y))) OR bitMask (offsetOf (index x y)))),
            side_to_move := otherPlayer (side_to_move b),
            hashKey := (hashKey b XOR zobristTable z x y (playerIndex (side_to_move b))) XOR zobristSide z\<rparr>)"
  using assms by (simp add: makeMove_def onBoard_def Let_def otherPlayer_def)

lemma otherPlayer_twice: "otherPlayer (otherPlayer p) = p"
  by (cases p) (simp_all add: otherPlayer_def)

lemma xor_cancel3: "((((h :: 64 word) XOR a) XOR s) XOR s) XOR a = h"
  by (rule bit_eqI) (auto simp: bit_xor_iff)

lemma make_unmake_snd:
  assumes "onBoard x y" "\<not> isOccupied b x y"
  shows "unmakeMove z (snd (makeMove z b x y)) x y = (True, b)"
proof -
  let ?p = "playerIndex (side_to_move b)"
  let ?c = "nat (chunkOf (index x y))"
  let ?off = "offsetOf (index x y)"
  have nb: "\<not> bit (bb b ?p ?c) (nat ?off)"
    using assms isOccupied_stone[of x y b] by (cases "side_to_move b") (auto simp: stoneAt_def)
  have restore: "(bb b ?p ?c OR bitMask ?off) AND NOT (bitMask ?off) = bb b ?p ?c"
    using nb by (rule set_clear_bitMask)
  show ?thesis
    unfolding makeMove_ok[OF assms]
    by (simp add: unmakeMove_def Let_def otherPlayer_twice restore xor_cancel3
        flip: otherPlayer_def)
qed


lemma makeMove_True_iff: "fst (makeMove z b x y) = (onBoard x y \<and> \<not> isOccupied b x y)"
  by (auto simp: makeMove_def onBoard_def Let_def)

lemma makeMove_TrueD: "makeMove z b x y = (True, b') \<Longrightarrow> onBoard x y \<and> \<not> isOccupied b x y"
  using makeMove_True_iff[of z b x y] by simp

lemma stoneAt_makeMove:
  assumes "onBoard x y" "\<not> isOccupied b x y" "onBoard cx cy"
  shows "stoneAt (snd (makeMove z b x y)) p cx cy =
         (stoneAt b p cx cy \<or> (p = playerIndex (side_to_move b) \<and> cx = x \<and> cy = y))"
proof (cases "cx = x \<and> cy = y")
  case True
  then show ?thesis
    using offset_lt[OF assms(1)]
    by (auto simp: makeMove_ok[OF assms(1,2)] stoneAt_def bit_or_bitMask)
next
  case False
  then have "nat (chunkOf (index cx cy)) \<noteq> nat (chunkOf (index x y))
       \<or> nat (offsetOf (index cx cy)) \<noteq> nat (offsetOf (index x y))"
    using cell_inj[OF assms(3,1)] by blast
  then show ?thesis
    using False by (auto simp: makeMove_ok[OF assms(1,2)] stoneAt_def bit_or_bitMask)
qed

lemma getCellState_off: "\<not> onBoard x y \<Longrightarrow> getCellState b x y = - 1"
  by (auto simp: getCellState_def onBoard_def)

lemma empty_iff_not_occupied:
  "onBoard x y \<Longrightarrow> (getCellState b x y = 0) = (\<not> isOccupied b x y)"
  by (simp add: getCellState_stone isOccupied_stone)

subsection \<open>A sample Zobrist table for evaluating concrete positions\<close>

definition sampleZobrist :: Zobrist where
  "sampleZobrist =
     \<lparr>zobristTable = (\<lambda>x y p. word_of_int (x * 24 + y * 2 + int p + 1)), zobristSide = 1000\<rparr>"

lemmas board_eval = newBoard_def placeInitial_def placeBit_def emptyBoard_def index_def
  chunkOf_div offsetOf_mod bitMask_def Let_def sampleZobrist_def

lemma sample_move_77:
  "makeMove sampleZobrist (newBoard sampleZobrist) 7 7
     = (True, snd (makeMove sampleZobrist (newBoard sampleZobrist) 7 7))"
  by (simp add: makeMove_def isOccupied_def board_eval)

subsection \<open>Apply and undo\<close>

text \<open>
  C3. A successful \<open>makeMove(x, y)\<close> immediately followed by \<open>unmakeMove(x, y)\<close> gives back
  the board it started from: the whole record is equal, hence the occupancy of every
  cell, the side to move and the 64-bit hash key are those before the move. A move
  succeeds exactly on an in-range empty cell (\<open>makeMove_True_iff\<close>).
\<close>

theorem makeMove_unmakeMove_restores:
  assumes "makeMove z b x y = (True, b')"
  shows "unmakeMove z b' x y = (True, b)
     \<and> (\<forall>cx cy. getCellState (snd (unmakeMove z b' x y)) cx cy = getCellState b cx cy)
     \<and> sideToMove (snd (unmakeMove z b' x y)) = sideToMove b
     \<and> getHashKey (snd (unmakeMove z b' x y)) = getHashKey b"
proof -
  from assms have ok: "onBoard x y" "\<not> isOccupied b x y"
    by (auto dest: makeMove_TrueD)
  have "b' = snd (makeMove z b x y)" using assms by simp
  with make_unmake_snd[OF ok, of z] have "unmakeMove z b' x y = (True, b)" by simp
  then show ?thesis by simp
qed

theorem makeMove_unmakeMove_restores_witness:
  "unmakeMove sampleZobrist (snd (makeMove sampleZobrist (newBoard sampleZobrist) 7 7)) 7 7
     = (True, newBoard sampleZobrist)"
  using makeMove_unmakeMove_restores[OF sample_move_77] by simp

text \<open>
  C9. \<open>makeMove(x, y)\<close> returns false and leaves the board record untouched when \<open>(x, y)\<close>
  is off the board or the cell holds a stone of either side. Otherwise it returns true,
  the cell then holds the stone of the side that was to move, every other cell is as
  before, the hash key is the old key XOR the cell's Zobrist number for that side XOR the
  side marker, and the side to move is the other player.
\<close>

theorem makeMove_contract:
  "(if x < 0 \<or> x \<ge> 12 \<or> y < 0 \<or> y \<ge> 12 \<or> getCellState b x y = 1 \<or> getCellState b x y = 2
    then makeMove z b x y = (False, b)
    else fst (makeMove z b x y) = True
       \<and> getCellState (snd (makeMove z b x y)) x y = (if side_to_move b = Black then 1 else 2)
       \<and> (\<forall>cx cy. (cx, cy) \<noteq> (x, y) \<longrightarrow>
             getCellState (snd (makeMove z b x y)) cx cy = getCellState b cx cy)
       \<and> getHashKey (snd (makeMove z b x y))
           = (getHashKey b XOR zobristTable z x y (playerIndex (side_to_move b))) XOR zobristSide z
       \<and> sideToMove (snd (makeMove z b x y)) = (if side_to_move b = Black then White else Black))"
proof (cases "onBoard x y")
  case False
  then show ?thesis by (auto simp: makeMove_def onBoard_def)
next
  case on: True
  show ?thesis
  proof (cases "isOccupied b x y")
    case True
    then have "getCellState b x y = 1 \<or> getCellState b x y = 2"
      using on by (auto simp: getCellState_stone isOccupied_stone)
    moreover have "makeMove z b x y = (False, b)"
      using True by (simp add: makeMove_fail)
    ultimately show ?thesis by auto
  next
    case free: False
    then have st: "getCellState b x y = 0" "\<not> stoneAt b 0 x y" "\<not> stoneAt b 1 x y"
      using on by (auto simp: empty_iff_not_occupied isOccupied_stone)
    have cell: "getCellState (snd (makeMove z b x y)) x y = (if side_to_move b = Black then 1 else 2)"
      using st by (cases "side_to_move b")
        (simp_all add: getCellState_stone[OF on] stoneAt_makeMove[OF on free on])
    have others: "getCellState (snd (makeMove z b x y)) cx cy = getCellState b cx cy"
      if "(cx, cy) \<noteq> (x, y)" for cx cy
    proof (cases "onBoard cx cy")
      case True
      then show ?thesis using that
        by (auto simp: getCellState_stone stoneAt_makeMove[OF on free True])
    next
      case False
      then show ?thesis by (simp add: getCellState_off)
    qed
    have rest: "fst (makeMove z b x y) = True"
      "getHashKey (snd (makeMove z b x y))
           = (getHashKey b XOR zobristTable z x y (playerIndex (side_to_move b))) XOR zobristSide z"
      "sideToMove (snd (makeMove z b x y)) = (if side_to_move b = Black then White else Black)"
      by (simp_all add: makeMove_ok[OF on free] getHashKey_def sideToMove_def otherPlayer_def)
    from on st(1) have "\<not> (x < 0 \<or> x \<ge> 12 \<or> y < 0 \<or> y \<ge> 12 \<or> getCellState b x y = 1 \<or> getCellState b x y = 2)"
      by (auto simp: onBoard_def)
    then show ?thesis using cell others rest by simp
  qed
qed

theorem makeMove_contract_witness:
  "makeMove sampleZobrist (newBoard sampleZobrist) 6 6 = (False, newBoard sampleZobrist)
   \<and> makeMove sampleZobrist (newBoard sampleZobrist) 12 0 = (False, newBoard sampleZobrist)
   \<and> getCellState (snd (makeMove sampleZobrist (newBoard sampleZobrist) 7 7)) 7 7 = 1
   \<and> getCellState (snd (makeMove sampleZobrist (newBoard sampleZobrist) 7 7)) 6 6
       = getCellState (newBoard sampleZobrist) 6 6"
proof -
  have occ: "getCellState (newBoard sampleZobrist) 6 6 = 2"
    by (simp add: getCellState_def board_eval)
  have free: "getCellState (newBoard sampleZobrist) 7 7 = 0"
    by (simp add: getCellState_def board_eval)
  have side: "side_to_move (newBoard sampleZobrist) = Black"
    by (simp add: board_eval)
  show ?thesis
    using makeMove_contract[of 6 6 "newBoard sampleZobrist" sampleZobrist]
      makeMove_contract[of 12 0 "newBoard sampleZobrist" sampleZobrist]
      makeMove_contract[of 7 7 "newBoard sampleZobrist" sampleZobrist]
    by (simp add: occ free side)
qed


subsection \<open>The hash key as a function of the position\<close>

definition allCells :: "(int \<times> int) list" where
  "allCells = concat (map (\<lambda>y. map (\<lambda>x. (x, y)) [0..11]) [0..11])"

definition cellKey :: "Zobrist \<Rightarrow> int \<Rightarrow> int \<Rightarrow> int \<Rightarrow> 64 word" where
  "cellKey z st x y =
     (if st = 1 then zobristTable z x y (playerIndex Black)
      else if st = 2 then zobristTable z x y (playerIndex White)
      else 0)"

definition stateHash :: "Zobrist \<Rightarrow> (int \<Rightarrow> int \<Rightarrow> int) \<Rightarrow> Player \<Rightarrow> 64 word" where
  "stateHash z cell side =
     foldr (XOR) (map (\<lambda>(x, y). cellKey z (cell x y) x y) allCells)
       (if side = White then zobristSide z else 0)"

inductive stackReachable :: "Zobrist \<Rightarrow> Board \<times> Move list \<Rightarrow> bool" for z where
  r_init: "stackReachable z (newBoard z, [])"
| r_make: "stackReachable z (b, hist) \<Longrightarrow> makeMove z b x y = (ok, b')
      \<Longrightarrow> stackReachable z (b', if ok then Move x y # hist else hist)"
| r_unmake: "stackReachable z (b, Move x y # hist) \<Longrightarrow> unmakeMove z b x y = (ok, b')
      \<Longrightarrow> stackReachable z (b', hist)"

inductive replayed :: "Zobrist \<Rightarrow> Board \<Rightarrow> Move list \<Rightarrow> bool" for z where
  p_init: "replayed z (newBoard z) []"
| p_step: "replayed z b hist \<Longrightarrow> makeMove z b x y = (True, b') \<Longrightarrow> replayed z b' (Move x y # hist)"

inductive anyCalls :: "Zobrist \<Rightarrow> Board \<Rightarrow> bool" for z where
  a_init: "anyCalls z (newBoard z)"
| a_make: "anyCalls z b \<Longrightarrow> anyCalls z (snd (makeMove z b x y))"
| a_unmake: "anyCalls z b \<Longrightarrow> anyCalls z (snd (unmakeMove z b x y))"

definition undoneTwice :: "Zobrist \<Rightarrow> Board" where
  "undoneTwice z = snd (unmakeMove z (snd (unmakeMove z (newBoard z) 0 0)) 0 0)"

lemma stackReachable_replayed: "stackReachable z bh \<Longrightarrow> replayed z (fst bh) (snd bh)"
proof (induction rule: stackReachable.induct)
  case r_init
  then show ?case by (simp add: p_init)
next
  case (r_make b hist x y ok b')
  show ?case
  proof (cases ok)
    case True
    then show ?thesis using r_make by (auto intro: p_step)
  next
    case False
    then have "\<not> (onBoard x y \<and> \<not> isOccupied b x y)"
      using r_make.hyps(2) makeMove_True_iff[of z b x y] by auto
    then have "b' = b" using r_make.hyps(2) makeMove_fail[of x y b z] by auto
    then show ?thesis using False r_make by simp
  qed
next
  case (r_unmake b x y hist ok b')
  from r_unmake.IH obtain b0 where b0: "replayed z b0 hist" "makeMove z b0 x y = (True, b)"
    by (auto elim: replayed.cases)
  from b0(2) have "onBoard x y" "\<not> isOccupied b0 x y" "b = snd (makeMove z b0 x y)"
    by (auto dest: makeMove_TrueD)
  then have "unmakeMove z b x y = (True, b0)" using make_unmake_snd[of x y b0 z] by simp
  then show ?case using b0(1) r_unmake.hyps(2) by simp
qed

lemma foldr_xor_init: "foldr (XOR) xs (a :: 64 word) = foldr (XOR) xs 0 XOR a"
  by (induction xs) (simp_all add: xor.assoc)

lemma foldr_xor_update:
  assumes "distinct cs" "c \<in> set cs" "\<forall>c' \<in> set cs. c' \<noteq> c \<longrightarrow> f' c' = f c'"
  shows "foldr (XOR) (map f' cs) (a :: 64 word) = (foldr (XOR) (map f cs) a XOR f c) XOR f' c"
  using assms
proof (induction cs)
  case Nil
  then show ?case by simp
next
  case (Cons d cs)
  show ?case
  proof (cases "d = c")
    case True
    then have "c \<notin> set cs" using Cons.prems(1) by simp
    then have "map f' cs = map f cs" using Cons.prems(3) by (auto intro!: map_cong)
    then have "foldr (XOR) (map f' cs) a = foldr (XOR) (map f cs) a" by (simp only:)
    then have "foldr (XOR) (map f' (d # cs)) a = f' c XOR foldr (XOR) (map f cs) a"
      and "foldr (XOR) (map f (d # cs)) a = f c XOR foldr (XOR) (map f cs) a"
      using True by simp_all
    then show ?thesis by (simp only:) (rule bit_eqI, auto simp: bit_xor_iff)
  next
    case False
    then have "foldr (XOR) (map f' cs) a = (foldr (XOR) (map f cs) a XOR f c) XOR f' c"
      using Cons by auto
    moreover have "f' d = f d" using False Cons.prems(3) by simp
    ultimately show ?thesis by (simp add: xor.assoc)
  qed
qed

lemma distinct_allCells: "distinct allCells"
  by code_simp

lemma set_allCells: "(x, y) \<in> set allCells = onBoard x y"
  by (force simp: allCells_def onBoard_def)

definition hashOK :: "Zobrist \<Rightarrow> Board \<Rightarrow> bool" where
  "hashOK z b = (hashKey b = stateHash z (getCellState b) (side_to_move b))"

lemma stateHash_cong:
  "(\<And>x y. onBoard x y \<Longrightarrow> c1 x y = c2 x y) \<Longrightarrow> stateHash z c1 s = stateHash z c2 s"
  unfolding stateHash_def
  by (rule arg_cong[where f="\<lambda>l. foldr (XOR) l _"]) (auto simp: set_allCells)

lemma stateHash_side:
  "stateHash z c (otherPlayer s) = stateHash z c s XOR zobristSide z"
  unfolding stateHash_def otherPlayer_def
  by (cases s; simp add: foldr_xor_init[of _ "zobristSide z"] xor.assoc)

lemma stateHash_place:
  assumes on: "onBoard x y" and c0: "c x y = 0" and c1: "c' x y = int p + 1" and p: "p < 2"
    and others: "\<And>cx cy. onBoard cx cy \<Longrightarrow> (cx, cy) \<noteq> (x, y) \<Longrightarrow> c' cx cy = c cx cy"
  shows "stateHash z c' s = stateHash z c s XOR zobristTable z x y p"
proof -
  let ?f = "\<lambda>(x, y). cellKey z (c x y) x y"
  let ?f' = "\<lambda>(x, y). cellKey z (c' x y) x y"
  have "\<forall>d \<in> set allCells. d \<noteq> (x, y) \<longrightarrow> ?f' d = ?f d"
  proof (intro ballI impI)
    fix d assume d: "d \<in> set allCells" "d \<noteq> (x, y)"
    obtain cx cy where [simp]: "d = (cx, cy)" by (cases d)
    from d have "c' cx cy = c cx cy" by (intro others) (auto simp: set_allCells)
    then show "?f' d = ?f d" by simp
  qed
  from foldr_xor_update[OF distinct_allCells _ this, of "if s = White then zobristSide z else 0"] on
  have "stateHash z c' s = (stateHash z c s XOR ?f (x, y)) XOR ?f' (x, y)"
    by (simp add: stateHash_def set_allCells)
  moreover have "?f (x, y) = 0" using c0 by (simp add: cellKey_def)
  moreover have "?f' (x, y) = zobristTable z x y p"
  proof -
    from p have "p = 0 \<or> p = 1" by auto
    then show ?thesis using c1 by (auto simp: cellKey_def)
  qed
  ultimately show ?thesis by simp
qed

lemma hashOK_makeMove:
  assumes "hashOK z b" "makeMove z b x y = (True, b')"
  shows "hashOK z b'"
proof -
  from assms(2) have on: "onBoard x y" and free: "\<not> isOccupied b x y"
    and b': "b' = snd (makeMove z b x y)"
    by (auto dest: makeMove_TrueD)
  let ?p = "playerIndex (side_to_move b)"
  have st: "\<not> stoneAt b 0 x y" "\<not> stoneAt b 1 x y"
    using on free by (auto simp: isOccupied_stone)
  have c0: "getCellState b x y = 0"
    using on free by (simp add: empty_iff_not_occupied)
  have c1: "getCellState b' x y = int ?p + 1"
    using st unfolding b' by (cases "side_to_move b")
      (simp_all add: getCellState_stone[OF on] stoneAt_makeMove[OF on free on])
  have others: "getCellState b' cx cy = getCellState b cx cy"
    if "onBoard cx cy" "(cx, cy) \<noteq> (x, y)" for cx cy
    using that unfolding b' by (auto simp: getCellState_stone stoneAt_makeMove[OF on free])
  have p2: "?p < 2" by (cases "side_to_move b") simp_all
  have "stateHash z (getCellState b') (side_to_move b')
      = stateHash z (getCellState b') (side_to_move b) XOR zobristSide z"
    unfolding b' by (simp add: makeMove_ok[OF on free] stateHash_side)
  also have "stateHash z (getCellState b') (side_to_move b)
      = stateHash z (getCellState b) (side_to_move b) XOR zobristTable z x y ?p"
    using stateHash_place[of x y "getCellState b" "getCellState b'" ?p z "side_to_move b"]
      on c0 c1 p2 others by blast
  finally show ?thesis
    using assms(1) unfolding hashOK_def b' by (simp add: makeMove_ok[OF on free])
qed

lemma getCellState_emptyBoard: "onBoard x y \<Longrightarrow> getCellState emptyBoard x y = 0"
  by (simp add: getCellState_stone stoneAt_def emptyBoard_def)

lemma foldr_xor_zero: "(\<And>x. x \<in> set xs \<Longrightarrow> x = 0) \<Longrightarrow> foldr (XOR) xs (0 :: 64 word) = 0"
  by (induction xs) auto

lemma hashOK_emptyBoard: "hashOK z emptyBoard"
proof -
  have "stateHash z (getCellState emptyBoard) Black = 0"
    unfolding stateHash_def
    by (simp, rule foldr_xor_zero) (auto simp: set_allCells getCellState_emptyBoard cellKey_def)
  then show ?thesis by (simp add: hashOK_def emptyBoard_def)
qed

lemma stoneAt_placeInitial:
  assumes "onBoard x y" "onBoard cx cy"
  shows "stoneAt (placeInitial z b pl (x, y)) p cx cy =
         (stoneAt b p cx cy \<or> (p = playerIndex pl \<and> cx = x \<and> cy = y))"
proof (cases "cx = x \<and> cy = y")
  case True
  then show ?thesis
    using offset_lt[OF assms(1)]
    by (auto simp: placeInitial_def placeBit_def Let_def stoneAt_def bit_or_bitMask)
next
  case False
  then have "nat (chunkOf (index cx cy)) \<noteq> nat (chunkOf (index x y))
       \<or> nat (offsetOf (index cx cy)) \<noteq> nat (offsetOf (index x y))"
    using cell_inj[OF assms(2,1)] by blast
  then show ?thesis
    using False by (auto simp: placeInitial_def placeBit_def Let_def stoneAt_def bit_or_bitMask)
qed

lemma isOccupied_placeInitial:
  "onBoard x y \<Longrightarrow> onBoard cx cy \<Longrightarrow>
   isOccupied (placeInitial z b pl (x, y)) cx cy = (isOccupied b cx cy \<or> (cx = x \<and> cy = y))"
  by (cases pl) (auto simp: isOccupied_stone stoneAt_placeInitial)

lemma hashOK_placeInitial:
  assumes ok: "hashOK z b" and on: "onBoard x y" and free: "\<not> isOccupied b x y"
  shows "hashOK z (placeInitial z b pl (x, y))"
proof -
  let ?b' = "placeInitial z b pl (x, y)"
  let ?p = "playerIndex pl"
  have st: "\<not> stoneAt b 0 x y" "\<not> stoneAt b 1 x y"
    using on free by (auto simp: isOccupied_stone)
  have c0: "getCellState b x y = 0"
    using on free by (simp add: empty_iff_not_occupied)
  have c1: "getCellState ?b' x y = int ?p + 1"
    using st by (cases pl) (simp_all add: getCellState_stone[OF on] stoneAt_placeInitial[OF on on])
  have others: "getCellState ?b' cx cy = getCellState b cx cy"
    if "onBoard cx cy" "(cx, cy) \<noteq> (x, y)" for cx cy
    using that by (auto simp: getCellState_stone stoneAt_placeInitial[OF on])
  have p2: "?p < 2" by (cases pl) simp_all
  have "stateHash z (getCellState ?b') (side_to_move b)
      = stateHash z (getCellState b) (side_to_move b) XOR zobristTable z x y ?p"
    using stateHash_place[of x y "getCellState b" "getCellState ?b'" ?p z "side_to_move b"]
      on c0 c1 p2 others by blast
  moreover have "side_to_move ?b' = side_to_move b" "hashKey ?b' = hashKey b XOR zobristTable z x y ?p"
    by (simp_all add: placeInitial_def placeBit_def Let_def)
  ultimately show ?thesis using ok by (simp add: hashOK_def)
qed

lemma isOccupied_emptyBoard: "onBoard x y \<Longrightarrow> \<not> isOccupied emptyBoard x y"
  by (simp add: isOccupied_stone stoneAt_def emptyBoard_def)

lemma getCellState_side_update: "getCellState (b\<lparr>side_to_move := s\<rparr>) = getCellState b"
  by (simp add: getCellState_def fun_eq_iff Let_def)

lemma hashOK_set_side: "hashOK z b \<Longrightarrow> side_to_move b = s \<Longrightarrow> hashOK z (b\<lparr>side_to_move := s\<rparr>)"
  by (simp add: hashOK_def getCellState_side_update)

lemma hashOK_newBoard: "hashOK z (newBoard z)"
proof -
  let ?b1 = "placeInitial z emptyBoard White (6, 6)"
  let ?b2 = "placeInitial z ?b1 White (5, 5)"
  let ?b3 = "placeInitial z ?b2 Black (6, 5)"
  let ?b4 = "placeInitial z ?b3 Black (5, 6)"
  have on: "onBoard 6 6" "onBoard 5 5" "onBoard 6 5" "onBoard 5 6" by (simp_all add: onBoard_def)
  have f1: "\<not> isOccupied emptyBoard 6 6" by (simp add: on isOccupied_emptyBoard)
  have 1: "hashOK z ?b1"
    by (rule hashOK_placeInitial[OF hashOK_emptyBoard on(1) f1])
  have f2: "\<not> isOccupied ?b1 5 5" by (simp add: isOccupied_placeInitial on isOccupied_emptyBoard)
  have 2: "hashOK z ?b2"
    by (rule hashOK_placeInitial[OF 1 on(2) f2])
  have f3: "\<not> isOccupied ?b2 6 5" by (simp add: isOccupied_placeInitial on isOccupied_emptyBoard)
  have 3: "hashOK z ?b3"
    by (rule hashOK_placeInitial[OF 2 on(3) f3])
  have f4: "\<not> isOccupied ?b3 5 6" by (simp add: isOccupied_placeInitial on isOccupied_emptyBoard)
  have 4: "hashOK z ?b4"
    by (rule hashOK_placeInitial[OF 3 on(4) f4])
  have side: "side_to_move ?b4 = Black"
    by (simp add: placeInitial_def placeBit_def Let_def emptyBoard_def)
  have "newBoard z = ?b4\<lparr>side_to_move := Black\<rparr>" by (simp add: newBoard_def)
  then show ?thesis using hashOK_set_side[OF 4 side] by simp
qed

lemma replayed_hashOK: "replayed z b hist \<Longrightarrow> hashOK z b"
  by (induction rule: replayed.induct) (auto intro: hashOK_newBoard hashOK_makeMove)

lemma stackReachable_hashOK: "stackReachable z (b, hist) \<Longrightarrow> hashOK z b"
  using stackReachable_replayed[of z "(b, hist)"] replayed_hashOK by simp

lemma getCellState_makeMove:
  assumes "onBoard x y" "\<not> isOccupied b x y"
  shows "getCellState (snd (makeMove z b x y)) cx cy =
     (if cx = x \<and> cy = y then (if side_to_move b = Black then 1 else 2) else getCellState b cx cy)"
proof (cases "onBoard cx cy")
  case True
  have "\<not> stoneAt b 0 x y" "\<not> stoneAt b 1 x y"
    using assms by (auto simp: isOccupied_stone)
  then show ?thesis
    using True assms(1) by (cases "side_to_move b")
      (auto simp: getCellState_stone stoneAt_makeMove[OF assms])
next
  case False
  then show ?thesis using assms(1) by (auto simp: getCellState_off)
qed

lemma isOccupied_makeMove:
  assumes "onBoard x y" "\<not> isOccupied b x y"
  shows "isOccupied (snd (makeMove z b x y)) cx cy = (isOccupied b cx cy \<or> (cx = x \<and> cy = y))"
proof (cases "onBoard cx cy")
  case True
  then show ?thesis
    using assms(1) by (cases "side_to_move b") (auto simp: isOccupied_stone stoneAt_makeMove[OF assms])
next
  case False
  then show ?thesis using assms(1) by (auto simp: isOccupied_def onBoard_def)
qed

lemma side_makeMove:
  "onBoard x y \<Longrightarrow> \<not> isOccupied b x y \<Longrightarrow>
   side_to_move (snd (makeMove z b x y)) = otherPlayer (side_to_move b)"
  by (simp add: makeMove_ok)

lemma isOccupied_newBoard:
  "onBoard x y \<Longrightarrow>
   isOccupied (newBoard z) x y = ((x, y) \<in> {(6, 6), (5, 5), (6, 5), (5, 6)})"
proof -
  assume on: "onBoard x y"
  have ons: "onBoard 6 6" "onBoard 5 5" "onBoard 6 5" "onBoard 5 6" by (simp_all add: onBoard_def)
  have "isOccupied (b\<lparr>side_to_move := s\<rparr>) x y = isOccupied b x y" for b s
    by (simp add: isOccupied_def Let_def)
  then show ?thesis
    using on by (auto simp: newBoard_def isOccupied_placeInitial ons isOccupied_emptyBoard)
qed

lemma side_newBoard: "side_to_move (newBoard z) = Black"
  by (simp add: newBoard_def)

lemma stackReachable_step:
  "stackReachable z (b, hist) \<Longrightarrow> onBoard x y \<Longrightarrow> \<not> isOccupied b x y
   \<Longrightarrow> stackReachable z (snd (makeMove z b x y), Move x y # hist)"
  using r_make[of z b hist x y True "snd (makeMove z b x y)"] makeMove_True_iff[of z b x y]
  by (simp add: prod_eq_iff)

lemma clear_absent_bit: "\<not> bit (w :: 64 word) (nat off) \<Longrightarrow> w AND NOT (bitMask off) = w"
  by (rule bit_eqI) (auto simp: bit_clear_bitMask)

lemma unmakeMove_empty_cell:
  assumes "onBoard x y" "\<not> isOccupied b x y"
  shows "unmakeMove z b x y =
    (True, b\<lparr>side_to_move := otherPlayer (side_to_move b),
            hashKey := (hashKey b XOR zobristSide z)
                        XOR zobristTable z x y (playerIndex (otherPlayer (side_to_move b)))\<rparr>)"
proof -
  let ?p = "playerIndex (otherPlayer (side_to_move b))"
  let ?c = "nat (chunkOf (index x y))"
  have "\<not> stoneAt b ?p x y"
    using assms isOccupied_stone[of x y b]
    by (cases "side_to_move b") (auto simp: otherPlayer_def)
  then have "bb b ?p ?c AND NOT (bitMask (offsetOf (index x y))) = bb b ?p ?c"
    unfolding stoneAt_def by (rule clear_absent_bit)
  then show ?thesis
    by (simp add: unmakeMove_def Let_def flip: otherPlayer_def)
qed

lemma isOccupied_fields:
  "isOccupied (b\<lparr>side_to_move := s, hashKey := h\<rparr>) = isOccupied b"
  "getCellState (b\<lparr>side_to_move := s, hashKey := h\<rparr>) = getCellState b"
  by (simp_all add: isOccupied_def getCellState_def fun_eq_iff Let_def)

lemma undoneTwice_eq:
  "undoneTwice z = (newBoard z)\<lparr>hashKey :=
      (((hashKey (newBoard z) XOR zobristSide z) XOR zobristTable z 0 0 1) XOR zobristSide z)
        XOR zobristTable z 0 0 0\<rparr>"
proof -
  have on: "onBoard 0 0" by (simp add: onBoard_def)
  have f0: "\<not> isOccupied (newBoard z) 0 0" by (simp add: isOccupied_newBoard on)
  have u1: "unmakeMove z (newBoard z) 0 0 = (True, (newBoard z)\<lparr>side_to_move := White,
      hashKey := (hashKey (newBoard z) XOR zobristSide z) XOR zobristTable z 0 0 1\<rparr>)"
    by (simp add: unmakeMove_empty_cell[OF on f0] side_newBoard otherPlayer_def)
  have f1: "\<not> isOccupied ((newBoard z)\<lparr>side_to_move := White,
      hashKey := (hashKey (newBoard z) XOR zobristSide z) XOR zobristTable z 0 0 1\<rparr>) 0 0"
    by (simp add: isOccupied_fields f0)
  show ?thesis
    unfolding undoneTwice_def u1 snd_conv unmakeMove_empty_cell[OF on f1]
    using side_newBoard[of z] by (simp add: otherPlayer_def)
qed

text \<open>
  C4. As stated, for boards produced by any sequence of \<open>makeMove\<close> and \<open>unmakeMove\<close>
  calls, the claim fails: \<open>unmakeMove\<close> does not look at the cell it is given, so two
  calls \<open>unmakeMove(0, 0)\<close> on the fresh board leave every cell and the side to move as
  they were and change the key by the XOR of the two Zobrist numbers of cell \<open>(0, 0)\<close>.
\<close>

theorem hash_history_counterexample:
  "anyCalls sampleZobrist (newBoard sampleZobrist)
   \<and> anyCalls sampleZobrist (undoneTwice sampleZobrist)
   \<and> getCellState (undoneTwice sampleZobrist) = getCellState (newBoard sampleZobrist)
   \<and> sideToMove (undoneTwice sampleZobrist) = sideToMove (newBoard sampleZobrist)
   \<and> getHashKey (undoneTwice sampleZobrist) \<noteq> getHashKey (newBoard sampleZobrist)"
proof -
  have calls: "anyCalls sampleZobrist (undoneTwice sampleZobrist)"
    unfolding undoneTwice_def by (intro a_unmake a_init)
  have cells: "getCellState (undoneTwice sampleZobrist) = getCellState (newBoard sampleZobrist)"
    unfolding undoneTwice_eq by (simp add: getCellState_def fun_eq_iff Let_def)
  have side: "sideToMove (undoneTwice sampleZobrist) = sideToMove (newBoard sampleZobrist)"
    unfolding undoneTwice_eq by (simp add: sideToMove_def)
  have "(((h XOR s) XOR a) XOR s) XOR c = h XOR (a XOR c)" for h s a c :: "64 word"
    by (rule bit_eqI) (auto simp: bit_xor_iff)
  then have key: "getHashKey (undoneTwice sampleZobrist)
      = getHashKey (newBoard sampleZobrist) XOR 3"
    unfolding undoneTwice_eq by (simp add: getHashKey_def sampleZobrist_def)
  have "h XOR 3 \<noteq> h" for h :: "64 word"
  proof
    assume "h XOR 3 = h"
    then have "bit (h XOR 3) 0 = bit h 0" by simp
    then show False by (simp add: bit_xor_iff)
  qed
  then show ?thesis using calls cells side key by (simp add: a_init)
qed


text \<open>
  C4, amended. \<open>stackReachable\<close> holds of the boards that arise from the initial board by
  calls of \<open>makeMove\<close> (successful or rejected) and by calls of \<open>unmakeMove\<close> that undo the
  most recent move still on the stack of played moves, which is how the engine and the
  undo contract use it. For two such boards that agree on the state of all 144 cells and
  on the side to move, \<open>getHashKey\<close> agrees; the key is \<open>stateHash\<close>, a function of the cell
  states and the side to move alone.
\<close>

theorem hash_depends_on_state_only:
  assumes "stackReachable z (b1, h1)" and "stackReachable z (b2, h2)"
    and cells: "\<forall>x y. 0 \<le> x \<and> x < 12 \<and> 0 \<le> y \<and> y < 12 \<longrightarrow> getCellState b1 x y = getCellState b2 x y"
    and side: "sideToMove b1 = sideToMove b2"
  shows "getHashKey b1 = getHashKey b2
       \<and> getHashKey b1 = stateHash z (getCellState b1) (sideToMove b1)"
proof -
  have "stateHash z (getCellState b1) (side_to_move b1) = stateHash z (getCellState b2) (side_to_move b1)"
    using cells by (intro stateHash_cong) (simp add: onBoard_def)
  moreover have "hashOK z b1" "hashOK z b2"
    using assms(1,2) by (auto dest: stackReachable_hashOK)
  ultimately show ?thesis
    using side by (simp add: hashOK_def getHashKey_def sideToMove_def)
qed

theorem hash_depends_on_state_only_witness:
  "getHashKey (snd (makeMove sampleZobrist (snd (makeMove sampleZobrist
       (snd (makeMove sampleZobrist (newBoard sampleZobrist) 7 7)) 4 4)) 7 4))
   = getHashKey (snd (makeMove sampleZobrist (snd (makeMove sampleZobrist
       (snd (makeMove sampleZobrist (newBoard sampleZobrist) 7 4)) 4 4)) 7 7))"
proof -
  let ?z = sampleZobrist
  let ?a1 = "snd (makeMove ?z (newBoard ?z) 7 7)"
  let ?a2 = "snd (makeMove ?z ?a1 4 4)"
  let ?a3 = "snd (makeMove ?z ?a2 7 4)"
  let ?c1 = "snd (makeMove ?z (newBoard ?z) 7 4)"
  let ?c2 = "snd (makeMove ?z ?c1 4 4)"
  let ?c3 = "snd (makeMove ?z ?c2 7 7)"
  have on: "onBoard 7 7" "onBoard 4 4" "onBoard 7 4" by (simp_all add: onBoard_def)
  have fa1: "\<not> isOccupied (newBoard ?z) 7 7" by (simp add: isOccupied_newBoard on)
  have fa2: "\<not> isOccupied ?a1 4 4" by (simp add: isOccupied_makeMove fa1 isOccupied_newBoard on)
  have fa3: "\<not> isOccupied ?a2 7 4"
    by (simp add: isOccupied_makeMove fa1 fa2 isOccupied_newBoard on)
  have fc1: "\<not> isOccupied (newBoard ?z) 7 4" by (simp add: isOccupied_newBoard on)
  have fc2: "\<not> isOccupied ?c1 4 4" by (simp add: isOccupied_makeMove fc1 isOccupied_newBoard on)
  have fc3: "\<not> isOccupied ?c2 7 7"
    by (simp add: isOccupied_makeMove fc1 fc2 isOccupied_newBoard on)
  have ra: "stackReachable ?z (?a3, [Move 7 4, Move 4 4, Move 7 7])"
    by (intro stackReachable_step r_init on fa1 fa2 fa3)
  have rc: "stackReachable ?z (?c3, [Move 7 7, Move 4 4, Move 7 4])"
    by (intro stackReachable_step r_init on fc1 fc2 fc3)
  have cells: "\<forall>x y. 0 \<le> x \<and> x < 12 \<and> 0 \<le> y \<and> y < 12 \<longrightarrow> getCellState ?a3 x y = getCellState ?c3 x y"
    by (simp add: getCellState_makeMove on fa1 fa2 fa3 fc1 fc2 fc3 side_makeMove side_newBoard
        otherPlayer_def)
  have side: "sideToMove ?a3 = sideToMove ?c3"
    by (simp add: sideToMove_def side_makeMove on fa1 fa2 fa3 fc1 fc2 fc3)
  show ?thesis
    using hash_depends_on_state_only[OF ra rc cells side] by simp
qed


section \<open>Win detection\<close>

datatype Dir = Horizontal | Vertical | DiagDown | DiagUp

fun dirDx :: "Dir \<Rightarrow> int" where
  "dirDx Horizontal = 1" | "dirDx Vertical = 0" | "dirDx DiagDown = 1" | "dirDx DiagUp = 1"

fun dirDy :: "Dir \<Rightarrow> int" where
  "dirDy Horizontal = 0" | "dirDy Vertical = 1" | "dirDy DiagDown = 1" | "dirDy DiagUp = - 1"

definition dirs :: "Dir list" where
  "dirs = [Horizontal, Vertical, DiagDown, DiagUp]"

definition hasStone :: "Board \<Rightarrow> nat \<Rightarrow> int \<Rightarrow> int \<Rightarrow> bool" where
  "hasStone b p x y =
     (let idx = index x y; c = nat (chunkOf idx); off = offsetOf idx
      in bb b p c AND bitMask off \<noteq> 0)"

function extendForward :: "Board \<Rightarrow> nat \<Rightarrow> Dir \<Rightarrow> int \<Rightarrow> int \<Rightarrow> int \<Rightarrow> int" where
  "extendForward b p d nx ny cnt =
     (if nx \<ge> 0 \<and> nx < 12 \<and> ny \<ge> 0 \<and> ny < 12
      then (if \<not> hasStone b p nx ny then cnt
            else extendForward b p d (nx + dirDx d) (ny + dirDy d) (cnt + 1))
      else cnt)"
  by pat_completeness auto
termination
  by (relation "measure (\<lambda>(b, p, d, nx, ny, cnt).
        if d = Vertical then nat (12 - ny) else nat (12 - nx))")
    (simp, case_tac d, auto)

function extendBackward :: "Board \<Rightarrow> nat \<Rightarrow> Dir \<Rightarrow> int \<Rightarrow> int \<Rightarrow> int \<Rightarrow> int" where
  "extendBackward b p d nx ny cnt =
     (if nx \<ge> 0 \<and> nx < 12 \<and> ny \<ge> 0 \<and> ny < 12
      then (if \<not> hasStone b p nx ny then cnt
            else extendBackward b p d (nx - dirDx d) (ny - dirDy d) (cnt + 1))
      else cnt)"
  by pat_completeness auto
termination
  by (relation "measure (\<lambda>(b, p, d, nx, ny, cnt).
        if d = Vertical then nat (ny + 1) else nat (nx + 1))")
    (simp, case_tac d, auto)

definition lineCount :: "Board \<Rightarrow> nat \<Rightarrow> int \<Rightarrow> int \<Rightarrow> Dir \<Rightarrow> int" where
  "lineCount b p x y d =
     (let dx = dirDx d; dy = dirDy d;
          cnt = 1;
          cnt = extendForward b p d (x + dx) (y + dy) cnt;
          cnt = extendBackward b p d (x - dx) (y - dy) cnt
      in cnt)"

definition checkWin :: "Board \<Rightarrow> Player \<Rightarrow> bool" where
  "checkWin b player =
     (let p = playerIndex player
      in list_ex (\<lambda>(x, y). hasStone b p x y \<and> list_ex (\<lambda>d. lineCount b p x y d \<ge> 5) dirs) allCells)"

definition fiveInRow :: "Board \<Rightarrow> Player \<Rightarrow> bool" where
  "fiveInRow b player =
     (\<exists>x y d. \<forall>k \<in> {0..<5}. onBoard (x + k * dirDx d) (y + k * dirDy d)
                  \<and> hasStone b (playerIndex player) (x + k * dirDx d) (y + k * dirDy d))"

declare extendForward.simps [simp del] extendBackward.simps [simp del]

definition cellOK :: "Board \<Rightarrow> nat \<Rightarrow> int \<Rightarrow> int \<Rightarrow> bool" where
  "cellOK b p x y = (onBoard x y \<and> hasStone b p x y)"

lemma extendForward_step:
  "extendForward b p d nx ny cnt =
     (if cellOK b p nx ny then extendForward b p d (nx + dirDx d) (ny + dirDy d) (cnt + 1) else cnt)"
  by (subst extendForward.simps) (auto simp: cellOK_def onBoard_def)

lemma extendBackward_step:
  "extendBackward b p d nx ny cnt =
     (if cellOK b p nx ny then extendBackward b p d (nx - dirDx d) (ny - dirDy d) (cnt + 1) else cnt)"
  by (subst extendBackward.simps) (auto simp: cellOK_def onBoard_def)

lemma extendForward_mono: "cnt \<le> extendForward b p d nx ny cnt"
  by (induction b p d nx ny cnt rule: extendForward.induct)
     (subst extendForward.simps, auto)

lemma extendBackward_mono: "cnt \<le> extendBackward b p d nx ny cnt"
  by (induction b p d nx ny cnt rule: extendBackward.induct)
     (subst extendBackward.simps, auto)

lemma extendForward_ge:
  "(cnt + int k \<le> extendForward b p d nx ny cnt) =
   (\<forall>j<k. cellOK b p (nx + int j * dirDx d) (ny + int j * dirDy d))"
proof (induction k arbitrary: nx ny cnt)
  case 0
  then show ?case by (simp add: extendForward_mono)
next
  case (Suc k)
  show ?case
  proof (cases "cellOK b p nx ny")
    case True
    have "(cnt + int (Suc k) \<le> extendForward b p d nx ny cnt)
        = ((cnt + 1) + int k \<le> extendForward b p d (nx + dirDx d) (ny + dirDy d) (cnt + 1))"
      using True by (subst extendForward_step) (simp add: add.assoc)
    also have "\<dots> = (\<forall>j<k. cellOK b p (nx + dirDx d + int j * dirDx d) (ny + dirDy d + int j * dirDy d))"
      by (rule Suc.IH)
    also have "\<dots> = (\<forall>j<Suc k. cellOK b p (nx + int j * dirDx d) (ny + int j * dirDy d))"
      (is "?L = ?R")
    proof
      assume l: ?L
      show ?R
      proof (intro allI impI)
        fix j assume "j < Suc k"
        then show "cellOK b p (nx + int j * dirDx d) (ny + int j * dirDy d)"
          using l[rule_format, of "j - 1"] True by (cases j) (simp_all add: algebra_simps)
      qed
    next
      assume r: ?R
      show ?L
      proof (intro allI impI)
        fix j assume "j < k"
        then show "cellOK b p (nx + dirDx d + int j * dirDx d) (ny + dirDy d + int j * dirDy d)"
          using r[rule_format, of "Suc j"] by (simp add: algebra_simps)
      qed
    qed
    finally show ?thesis .
  next
    case False
    then have "extendForward b p d nx ny cnt = cnt" by (subst extendForward_step) simp
    moreover have "\<not> (\<forall>j<Suc k. cellOK b p (nx + int j * dirDx d) (ny + int j * dirDy d))"
      using False by (auto intro: exI[of _ 0])
    ultimately show ?thesis by simp
  qed
qed

lemma extendBackward_ge:
  "(cnt + int k \<le> extendBackward b p d nx ny cnt) =
   (\<forall>j<k. cellOK b p (nx - int j * dirDx d) (ny - int j * dirDy d))"
proof (induction k arbitrary: nx ny cnt)
  case 0
  then show ?case by (simp add: extendBackward_mono)
next
  case (Suc k)
  show ?case
  proof (cases "cellOK b p nx ny")
    case True
    have "(cnt + int (Suc k) \<le> extendBackward b p d nx ny cnt)
        = ((cnt + 1) + int k \<le> extendBackward b p d (nx - dirDx d) (ny - dirDy d) (cnt + 1))"
      using True by (subst extendBackward_step) (simp add: add.assoc)
    also have "\<dots> = (\<forall>j<k. cellOK b p (nx - dirDx d - int j * dirDx d) (ny - dirDy d - int j * dirDy d))"
      by (rule Suc.IH)
    also have "\<dots> = (\<forall>j<Suc k. cellOK b p (nx - int j * dirDx d) (ny - int j * dirDy d))"
      (is "?L = ?R")
    proof
      assume l: ?L
      show ?R
      proof (intro allI impI)
        fix j assume "j < Suc k"
        then show "cellOK b p (nx - int j * dirDx d) (ny - int j * dirDy d)"
          using l[rule_format, of "j - 1"] True by (cases j) (simp_all add: algebra_simps)
      qed
    next
      assume r: ?R
      show ?L
      proof (intro allI impI)
        fix j assume "j < k"
        then show "cellOK b p (nx - dirDx d - int j * dirDx d) (ny - dirDy d - int j * dirDy d)"
          using r[rule_format, of "Suc j"] by (simp add: algebra_simps)
      qed
    qed
    finally show ?thesis .
  next
    case False
    then have "extendBackward b p d nx ny cnt = cnt" by (subst extendBackward_step) simp
    moreover have "\<not> (\<forall>j<Suc k. cellOK b p (nx - int j * dirDx d) (ny - int j * dirDy d))"
      using False by (auto intro: exI[of _ 0])
    ultimately show ?thesis by simp
  qed
qed

lemma hasStone_stoneAt: "hasStone b p x y = stoneAt b p x y"
  by (simp add: hasStone_def stoneAt_def Let_def bitMask_test)

lemma checkWin_iff:
  "checkWin b player =
     (\<exists>x y d. cellOK b (playerIndex player) x y \<and> 5 \<le> lineCount b (playerIndex player) x y d)"
proof -
  have d: "set dirs = UNIV"
  proof -
    have "d \<in> set dirs" for d by (cases d) (simp_all add: dirs_def)
    then show ?thesis by auto
  qed
  show ?thesis
    unfolding checkWin_def Let_def list_ex_iff d cellOK_def
    by (auto simp: set_allCells) blast
qed

lemma lineCount_ge:
  "(5 \<le> lineCount b p x y d) =
   (\<exists>f g. f + g \<ge> 4
      \<and> (\<forall>j<f. cellOK b p (x + dirDx d + int j * dirDx d) (y + dirDy d + int j * dirDy d))
      \<and> (\<forall>j<g. cellOK b p (x - dirDx d - int j * dirDx d) (y - dirDy d - int j * dirDy d)))"
  (is "?L = ?R")
proof
  assume l: ?L
  define F where "F = extendForward b p d (x + dirDx d) (y + dirDy d) 1"
  define G where "G = extendBackward b p d (x - dirDx d) (y - dirDy d) F"
  have F1: "1 \<le> F" unfolding F_def by (rule extendForward_mono)
  have G1: "F \<le> G" unfolding G_def by (rule extendBackward_mono)
  have G5: "5 \<le> G" using l by (simp add: lineCount_def Let_def F_def G_def)
  let ?f = "nat (F - 1)" and ?g = "nat (G - F)"
  have "1 + int ?f \<le> F" using F1 by simp
  then have a: "\<forall>j<?f. cellOK b p (x + dirDx d + int j * dirDx d) (y + dirDy d + int j * dirDy d)"
    unfolding F_def by (simp only: extendForward_ge)
  have "F + int ?g \<le> G" using G1 by simp
  then have c: "\<forall>j<?g. cellOK b p (x - dirDx d - int j * dirDx d) (y - dirDy d - int j * dirDy d)"
    unfolding G_def by (simp only: extendBackward_ge)
  have "?f + ?g \<ge> 4" using F1 G1 G5 by simp
  then show ?R using a c by blast
next
  assume ?R
  then obtain f g where fg: "f + g \<ge> 4"
    and a: "\<forall>j<f. cellOK b p (x + dirDx d + int j * dirDx d) (y + dirDy d + int j * dirDy d)"
    and c: "\<forall>j<g. cellOK b p (x - dirDx d - int j * dirDx d) (y - dirDy d - int j * dirDy d)"
    by blast
  define F where "F = extendForward b p d (x + dirDx d) (y + dirDy d) 1"
  have "1 + int f \<le> F" unfolding F_def using a by (simp only: extendForward_ge)
  moreover have "F + int g \<le> extendBackward b p d (x - dirDx d) (y - dirDy d) F"
    using c by (simp only: extendBackward_ge)
  ultimately show ?L using fg by (simp add: lineCount_def Let_def F_def)
qed

text \<open>
  C5. \<open>checkWin\<close> is true exactly when the side has five cells in a row: a start cell and
  one of the four directions such that the five cells \<open>(x + k dx, y + k dy)\<close>, \<open>k < 5\<close>,
  are all on the board and all in that side's stone set. A longer run contains such a
  five; a four with a gap does not. The side's stones are the bits of its own bitboard,
  which is what \<open>checkWin\<close> reads.
\<close>

theorem checkWin_five_in_row: "checkWin b player = fiveInRow b player"
proof
  let ?p = "playerIndex player"
  assume "checkWin b player"
  then obtain x y d f g where c0: "cellOK b ?p x y" and fg: "f + g \<ge> (4::nat)"
    and a: "\<forall>j<f. cellOK b ?p (x + dirDx d + int j * dirDx d) (y + dirDy d + int j * dirDy d)"
    and c: "\<forall>j<g. cellOK b ?p (x - dirDx d - int j * dirDx d) (y - dirDy d - int j * dirDy d)"
    unfolding checkWin_iff lineCount_ge by blast
  have run: "cellOK b ?p (x + i * dirDx d) (y + i * dirDy d)" if "- int g \<le> i" "i \<le> int f" for i
  proof -
    consider "i = 0" | "i > 0" | "i < 0" by linarith
    then show ?thesis
    proof cases
      case 1
      then show ?thesis using c0 by simp
    next
      case 2
      then have "nat (i - 1) < f" using that by linarith
      from a[rule_format, OF this] 2 show ?thesis by (simp add: algebra_simps)
    next
      case 3
      then have "nat (- i - 1) < g" using that by linarith
      from c[rule_format, OF this] 3 show ?thesis by (simp add: algebra_simps)
    qed
  qed
  have "\<forall>k \<in> {0..<5}. cellOK b ?p ((x - int g * dirDx d) + k * dirDx d) ((y - int g * dirDy d) + k * dirDy d)"
  proof
    fix k :: int assume "k \<in> {0..<5}"
    then have "- int g \<le> k - int g" "k - int g \<le> int f" using fg by auto
    from run[OF this] show "cellOK b ?p ((x - int g * dirDx d) + k * dirDx d) ((y - int g * dirDy d) + k * dirDy d)"
      by (simp add: algebra_simps)
  qed
  then show "fiveInRow b player"
    unfolding fiveInRow_def cellOK_def by blast
next
  let ?p = "playerIndex player"
  assume "fiveInRow b player"
  then obtain x y d where five: "\<forall>k \<in> {0..<5}. cellOK b ?p (x + k * dirDx d) (y + k * dirDy d)"
    unfolding fiveInRow_def cellOK_def by blast
  have "cellOK b ?p x y" using five[rule_format, of 0] by simp
  moreover have "\<forall>j<4. cellOK b ?p (x + dirDx d + int j * dirDx d) (y + dirDy d + int j * dirDy d)"
  proof (intro allI impI)
    fix j :: nat assume "j < 4"
    then have "int j + 1 \<in> {0..<5}" by auto
    from five[rule_format, OF this]
    show "cellOK b ?p (x + dirDx d + int j * dirDx d) (y + dirDy d + int j * dirDy d)"
      by (simp add: algebra_simps)
  qed
  ultimately have "cellOK b ?p x y \<and> 5 \<le> lineCount b ?p x y d"
    unfolding lineCount_ge by (intro conjI exI[of _ 4] exI[of _ 0]) simp_all
  then show "checkWin b player" unfolding checkWin_iff by blast
qed

fun playMoves :: "Zobrist \<Rightarrow> Board \<Rightarrow> (int \<times> int) list \<Rightarrow> Board" where
  "playMoves z b [] = b"
| "playMoves z b ((x, y) # ms) = playMoves z (snd (makeMove z b x y)) ms"

definition fiveBoard :: Board where
  "fiveBoard = playMoves sampleZobrist (newBoard sampleZobrist)
      [(0, 0), (0, 11), (1, 0), (1, 11), (2, 0), (2, 11), (3, 0), (3, 11), (4, 0)]"

lemma fiveBoard_five: "fiveInRow fiveBoard Black"
  unfolding fiveInRow_def
  by (rule exI[of _ 0], rule exI[of _ 0], rule exI[of _ Horizontal]) code_simp

theorem checkWin_five_in_row_witness:
  "checkWin fiveBoard Black"
  using checkWin_five_in_row[of fiveBoard Black] fiveBoard_five
  by simp


section \<open>ThreatSolver\<close>

text \<open>
  \<open>std::sort\<close> is not stable and an \<open>unordered_map\<close> is iterated in an unspecified order,
  so the order among entries of equal key is not fixed by the program. The model sorts
  stably after an arbitrary rearrangement of the input: a value of type \<open>'a reorder\<close> is any
  function on lists that returns a permutation of its argument. Every sorted permutation
  of the input is the result for some such rearrangement.

  The \<open>unordered_map<int, int>\<close> of best severities is an association list with distinct
  keys; \<open>map_of\<close> is \<open>find\<close> and \<open>AList.update\<close> is assignment through \<open>operator[]\<close>.
  The four loops over rows, columns, diagonals and anti-diagonals run over \<open>allLines\<close> in
  the same order.
\<close>

typedef 'a reorder = "{f :: 'a list \<Rightarrow> 'a list. \<forall>xs. mset (f xs) = mset xs}"
  by (rule exI[of _ "\<lambda>xs. xs"]) simp

setup_lifting type_definition_reorder

lift_definition keepOrder :: "'a reorder" is "\<lambda>xs. xs"
  by simp

lift_definition reordered :: "'a reorder \<Rightarrow> 'a list \<Rightarrow> 'a list" is "\<lambda>f. f" .

definition stdSortDesc :: "'a reorder \<Rightarrow> ('a \<Rightarrow> int) \<Rightarrow> 'a list \<Rightarrow> 'a list" where
  "stdSortDesc r key xs = sort_key (\<lambda>e. - key e) (reordered r xs)"

lemma mset_reordered: "mset (reordered r xs) = mset xs"
  by transfer simp

lemma set_reordered: "set (reordered r xs) = set xs"
  using mset_reordered[of r xs] by (metis set_mset_mset)

lemma reordered_keepOrder: "reordered keepOrder xs = xs"
  by transfer simp

lemma set_stdSortDesc: "set (stdSortDesc r key xs) = set xs"
  by (simp add: stdSortDesc_def set_reordered)

lemma mset_stdSortDesc: "mset (stdSortDesc r key xs) = mset xs"
  by (simp add: stdSortDesc_def mset_reordered)

lemma sorted_uminus_desc: "sorted (map uminus (ys :: int list)) = sorted_wrt (\<lambda>a b. a \<ge> b) ys"
  by (induction ys) auto

lemma sorted_stdSortDesc: "sorted_wrt (\<lambda>a b. a \<ge> b) (map key (stdSortDesc r key xs))"
proof -
  have "sorted (map (\<lambda>e. - key e) (stdSortDesc r key xs))"
    by (simp add: stdSortDesc_def)
  then have "sorted (map uminus (map key (stdSortDesc r key xs)))"
    by (simp add: comp_def)
  then show ?thesis by (simp only: sorted_uminus_desc)
qed


datatype ThreatMove = ThreatMove (threat_move: Move) (severity: int)

record LineContext =
  xStart :: int
  yStart :: int
  ctx_dx :: int
  ctx_dy :: int
  ctx_length :: int

type_synonym Grid = "int list list"

definition coordKey :: "int \<Rightarrow> int \<Rightarrow> int" where
  "coordKey x y = y * 12 + x"

definition gridCell :: "Player \<Rightarrow> int \<Rightarrow> int" where
  "gridCell defender state =
     (let attacker = (if defender = Black then White else Black)
      in if (state = 1 \<and> attacker = Black) \<or> (state = 2 \<and> attacker = White) then 1
         else if (state = 1 \<and> defender = Black) \<or> (state = 2 \<and> defender = White) then - 1
         else 0)"

definition buildGrid :: "Board \<Rightarrow> Player \<Rightarrow> Grid" where
  "buildGrid b defender =
     map (\<lambda>y. map (\<lambda>x. gridCell defender (getCellState b x y)) [0..11]) [0..11]"

definition gridAt :: "Grid \<Rightarrow> int \<Rightarrow> int \<Rightarrow> int" where
  "gridAt grid x y = grid ! nat y ! nat x"

definition addMoveIfStronger :: "int \<Rightarrow> int \<Rightarrow> int \<Rightarrow> (int \<times> int) list \<Rightarrow> (int \<times> int) list" where
  "addMoveIfStronger x y sev bestSeverity =
     (if x < 0 \<or> x \<ge> 12 \<or> y < 0 \<or> y \<ge> 12 then bestSeverity
      else let key = coordKey x y
           in case map_of bestSeverity key of
                None \<Rightarrow> AList.update key sev bestSeverity
              | Some old \<Rightarrow> if sev > old then AList.update key sev bestSeverity else bestSeverity)"

definition OPEN_FOUR :: int where "OPEN_FOUR = 1000000"
definition SIMPLE_FOUR :: int where "SIMPLE_FOUR = 500000"
definition OPEN_THREE :: int where "OPEN_THREE = 120000"
definition BROKEN_THREE :: int where "BROKEN_THREE = 60000"

definition cellAt :: "Grid \<Rightarrow> LineContext \<Rightarrow> int \<Rightarrow> int" where
  "cellAt grid ctx offset =
     (let x = xStart ctx + offset * ctx_dx ctx;
          y = yStart ctx + offset * ctx_dy ctx
      in gridAt grid x y)"

definition scanStep :: "Grid \<Rightarrow> LineContext \<Rightarrow> int \<Rightarrow> int \<times> int \<times> int \<times> int list \<Rightarrow> int
    \<Rightarrow> int \<times> int \<times> int \<times> int list" where
  "scanStep grid ctx i st j =
     (case st of (defenderStones, attackerStones, empties, emptyOffsets) \<Rightarrow>
        let val = cellAt grid ctx (i + j)
        in if val = - 1 then (defenderStones + 1, attackerStones, empties, emptyOffsets)
           else if val = 1 then (defenderStones, attackerStones + 1, empties, emptyOffsets)
           else (defenderStones, attackerStones, empties + 1, emptyOffsets @ [j]))"

definition scanWindow :: "Grid \<Rightarrow> LineContext \<Rightarrow> int \<Rightarrow> int \<times> int \<times> int \<times> int list" where
  "scanWindow grid ctx i = foldl (scanStep grid ctx i) (0, 0, 0, []) [0..4]"

definition addAtOffset :: "LineContext \<Rightarrow> int \<Rightarrow> int \<Rightarrow> (int \<times> int) list \<Rightarrow> int \<Rightarrow> (int \<times> int) list" where
  "addAtOffset ctx i sev bestSeverity offset =
     (let x = xStart ctx + (i + offset) * ctx_dx ctx;
          y = yStart ctx + (i + offset) * ctx_dy ctx
      in addMoveIfStronger x y sev bestSeverity)"

definition processWindow :: "Grid \<Rightarrow> LineContext \<Rightarrow> (int \<times> int) list \<Rightarrow> int \<Rightarrow> (int \<times> int) list" where
  "processWindow grid ctx bestSeverity i =
     (case scanWindow grid ctx i of (defenderStones, attackerStones, empties, emptyOffsets) \<Rightarrow>
        if defenderStones > 0 then bestSeverity
        else let leftOpen = (i - 1 \<ge> 0 \<and> cellAt grid ctx (i - 1) = 0);
                 rightOpen = (i + 5 < ctx_length ctx \<and> cellAt grid ctx (i + 5) = 0)
             in if attackerStones = 4 \<and> empties = 1
                then addAtOffset ctx i (if leftOpen \<and> rightOpen then OPEN_FOUR else SIMPLE_FOUR)
                       bestSeverity (emptyOffsets ! 0)
                else if attackerStones = 3 \<and> empties = 2
                then (if leftOpen \<and> rightOpen
                      then foldl (addAtOffset ctx i OPEN_THREE) bestSeverity emptyOffsets
                      else if leftOpen \<or> rightOpen
                      then foldl (addAtOffset ctx i BROKEN_THREE) bestSeverity emptyOffsets
                      else bestSeverity)
                else bestSeverity)"

definition processLine :: "Grid \<Rightarrow> LineContext \<Rightarrow> (int \<times> int) list \<Rightarrow> (int \<times> int) list" where
  "processLine grid ctx bestSeverity =
     foldl (processWindow grid ctx) bestSeverity [0..ctx_length ctx - 5]"

definition horizontalLine :: "int \<Rightarrow> LineContext" where
  "horizontalLine y = \<lparr>xStart = 0, yStart = y, ctx_dx = 1, ctx_dy = 0, ctx_length = 12\<rparr>"

definition verticalLine :: "int \<Rightarrow> LineContext" where
  "verticalLine x = \<lparr>xStart = x, yStart = 0, ctx_dx = 0, ctx_dy = 1, ctx_length = 12\<rparr>"

definition diagonalLine :: "int \<Rightarrow> LineContext" where
  "diagonalLine k =
     (let xs = max 0 k; ys = max 0 (- k); len = min (12 - xs) (12 - ys)
      in \<lparr>xStart = xs, yStart = ys, ctx_dx = 1, ctx_dy = 1, ctx_length = len\<rparr>)"

definition antiDiagonalLine :: "int \<Rightarrow> LineContext" where
  "antiDiagonalLine s =
     (let xs = max 0 (s - 11); ys = min 11 s; len = min (ys + 1) (12 - xs)
      in \<lparr>xStart = xs, yStart = ys, ctx_dx = 1, ctx_dy = - 1, ctx_length = len\<rparr>)"

definition allLines :: "LineContext list" where
  "allLines = map horizontalLine [0..11] @ map verticalLine [0..11]
            @ map diagonalLine [- 11..11] @ map antiDiagonalLine [0..22]"

definition threatMap :: "Grid \<Rightarrow> (int \<times> int) list" where
  "threatMap grid = foldl (\<lambda>bestSeverity ctx. processLine grid ctx bestSeverity) [] allLines"

definition findBlockingMoves :: "ThreatMove reorder \<Rightarrow> Board \<Rightarrow> Player \<Rightarrow> ThreatMove list" where
  "findBlockingMoves r b defender =
     (let grid = buildGrid b defender;
          bestSeverity = threatMap grid;
          result = map (\<lambda>(key, sev). ThreatMove (Move (key mod 12) (key div 12)) sev) bestSeverity
      in stdSortDesc r severity result)"


lemma scan_fold:
  "foldl (scanStep grid ctx i) (d, a, e, eo) js =
     (d + int (length (filter (\<lambda>j. cellAt grid ctx (i + j) = - 1) js)),
      a + int (length (filter (\<lambda>j. cellAt grid ctx (i + j) = 1) js)),
      e + int (length (filter (\<lambda>j. cellAt grid ctx (i + j) \<noteq> - 1 \<and> cellAt grid ctx (i + j) \<noteq> 1) js)),
      eo @ filter (\<lambda>j. cellAt grid ctx (i + j) \<noteq> - 1 \<and> cellAt grid ctx (i + j) \<noteq> 1) js)"
  by (induction js arbitrary: d a e eo) (auto simp: scanStep_def Let_def)

definition windowEmpties :: "Grid \<Rightarrow> LineContext \<Rightarrow> int \<Rightarrow> int list" where
  "windowEmpties grid ctx i =
     filter (\<lambda>j. cellAt grid ctx (i + j) \<noteq> - 1 \<and> cellAt grid ctx (i + j) \<noteq> 1) [0..4]"

definition windowCount :: "Grid \<Rightarrow> LineContext \<Rightarrow> int \<Rightarrow> int \<Rightarrow> int" where
  "windowCount grid ctx i v = int (length (filter (\<lambda>j. cellAt grid ctx (i + j) = v) [0..4]))"

lemma scanWindow_eq:
  "scanWindow grid ctx i =
     (windowCount grid ctx i (- 1), windowCount grid ctx i 1,
      int (length (windowEmpties grid ctx i)), windowEmpties grid ctx i)"
  unfolding scanWindow_def scan_fold windowCount_def windowEmpties_def by simp

lemma set_AList_update: "set (AList.update k v al) \<subseteq> insert (k, v) (set al)"
  by (induction al) (auto simp: AList.update.simps)

definition playable :: "Board \<Rightarrow> int \<Rightarrow> bool" where
  "playable b key = (\<exists>x y. onBoard x y \<and> key = coordKey x y \<and> getCellState b x y = 0)"

lemma addMoveIfStronger_playable:
  assumes "\<forall>(k, v) \<in> set best. playable b k"
    and "onBoard x y \<Longrightarrow> getCellState b x y = 0"
  shows "\<forall>(k, v) \<in> set (addMoveIfStronger x y sev best). playable b k"
proof (cases "onBoard x y")
  case False
  then show ?thesis using assms(1) by (auto simp: addMoveIfStronger_def onBoard_def)
next
  case True
  then have "playable b (coordKey x y)" using assms(2) by (auto simp: playable_def)
  then have "\<forall>(k, v) \<in> set (AList.update (coordKey x y) sev best). playable b k"
    using assms(1) set_AList_update[of "coordKey x y" sev best] by auto
  then show ?thesis using assms(1)
    by (auto simp: addMoveIfStronger_def Let_def split: option.splits)
qed

lemma nth_map_upto12: "0 \<le> k \<Longrightarrow> k < 12 \<Longrightarrow> map f [0..11] ! nat k = f k"
proof -
  assume k: "0 \<le> k" "k < 12"
  then have "nat k < length [0..11::int]" by simp
  moreover have "[0..11] ! nat k = k" using k by (subst nth_upto) auto
  ultimately show ?thesis by (simp only: nth_map)
qed

lemma gridAt_buildGrid:
  "onBoard x y \<Longrightarrow> gridAt (buildGrid b defender) x y = gridCell defender (getCellState b x y)"
  by (simp add: gridAt_def buildGrid_def onBoard_def nth_map_upto12)

lemma gridCell_zero:
  "onBoard x y \<Longrightarrow> gridCell defender (getCellState b x y) \<noteq> 1 \<Longrightarrow>
   gridCell defender (getCellState b x y) \<noteq> - 1 \<Longrightarrow> getCellState b x y = 0"
  by (cases defender) (auto simp: gridCell_def getCellState_stone split: if_splits)

lemma addAtOffset_playable:
  assumes "\<forall>(k, v) \<in> set best. playable b k"
    and "cellAt (buildGrid b defender) ctx (i + offset) \<noteq> 1"
    and "cellAt (buildGrid b defender) ctx (i + offset) \<noteq> - 1"
  shows "\<forall>(k, v) \<in> set (addAtOffset ctx i sev best offset). playable b k"
  unfolding addAtOffset_def Let_def
proof (rule addMoveIfStronger_playable[OF assms(1)])
  let ?x = "xStart ctx + (i + offset) * ctx_dx ctx" and ?y = "yStart ctx + (i + offset) * ctx_dy ctx"
  assume on: "onBoard ?x ?y"
  from assms(2,3) show "getCellState b ?x ?y = 0"
    unfolding cellAt_def Let_def gridAt_buildGrid[OF on]
    by (rule gridCell_zero[OF on])
qed

lemma foldl_addAtOffset_playable:
  assumes "\<forall>(k, v) \<in> set best. playable b k"
    and "\<forall>offset \<in> set offs. cellAt (buildGrid b defender) ctx (i + offset) \<noteq> 1
            \<and> cellAt (buildGrid b defender) ctx (i + offset) \<noteq> - 1"
  shows "\<forall>(k, v) \<in> set (foldl (addAtOffset ctx i sev) best offs). playable b k"
  using assms
proof (induction offs arbitrary: best)
  case Nil
  then show ?case by simp
next
  case (Cons o1 offs)
  have "\<forall>(k, v) \<in> set (addAtOffset ctx i sev best o1). playable b k"
    using Cons.prems by (intro addAtOffset_playable) auto
  then show ?case using Cons by simp
qed

lemma windowEmpties_cells:
  "offset \<in> set (windowEmpties grid ctx i) \<Longrightarrow>
   cellAt grid ctx (i + offset) \<noteq> 1 \<and> cellAt grid ctx (i + offset) \<noteq> - 1"
  by (auto simp: windowEmpties_def)

lemma processWindow_playable:
  assumes "\<forall>(k, v) \<in> set best. playable b k"
  shows "\<forall>(k, v) \<in> set (processWindow (buildGrid b defender) ctx best i). playable b k"
proof -
  let ?g = "buildGrid b defender"
  let ?eo = "windowEmpties ?g ctx i"
  have all: "\<forall>offset \<in> set ?eo. cellAt ?g ctx (i + offset) \<noteq> 1 \<and> cellAt ?g ctx (i + offset) \<noteq> - 1"
    by (auto dest: windowEmpties_cells)
  have three: "\<forall>(k, v) \<in> set (foldl (addAtOffset ctx i sev) best ?eo). playable b k" for sev
    by (rule foldl_addAtOffset_playable[OF assms all])
  have four: "\<forall>(k, v) \<in> set (addAtOffset ctx i sev best (?eo ! 0)). playable b k"
    if "length ?eo = 1" for sev
  proof -
    from that have "?eo ! 0 \<in> set ?eo" by (cases ?eo) auto
    with all show ?thesis by (intro addAtOffset_playable[OF assms]) auto
  qed
  show ?thesis
    unfolding processWindow_def scanWindow_eq
    using assms three four by (simp add: Let_def)
qed

lemma processLine_playable:
  assumes "\<forall>(k, v) \<in> set best. playable b k"
  shows "\<forall>(k, v) \<in> set (processLine (buildGrid b defender) ctx best). playable b k"
proof -
  have "\<forall>(k, v) \<in> set (foldl (processWindow (buildGrid b defender) ctx) best is). playable b k" for "is"
    using assms
  proof (induction "is" arbitrary: best)
    case Nil
    then show ?case by simp
  next
    case (Cons i "is")
    then show ?case using processWindow_playable[of best b defender ctx i] by simp
  qed
  then show ?thesis by (simp add: processLine_def)
qed

lemma threatMap_playable: "\<forall>(k, v) \<in> set (threatMap (buildGrid b defender)). playable b k"
proof -
  have "\<forall>(k, v) \<in> set (foldl (\<lambda>best ctx. processLine (buildGrid b defender) ctx best) best ls). playable b k"
    if "\<forall>(k, v) \<in> set best. playable b k" for best ls
    using that
  proof (induction ls arbitrary: best)
    case Nil
    then show ?case by simp
  next
    case (Cons l ls)
    then show ?case using processLine_playable[of best b defender l] by simp
  qed
  from this[of "[]" allLines] show ?thesis by (simp add: threatMap_def)
qed

lemma coordKey_decode:
  "onBoard x y \<Longrightarrow> coordKey x y mod 12 = x \<and> coordKey x y div 12 = y"
  by (auto simp: coordKey_def onBoard_def)

text \<open>
  C10. Every \<open>ThreatMove\<close> in the list returned by \<open>findBlockingMoves\<close>, for any board,
  any defender and any tie order of the final sort, has both coordinates in \<open>[0, 12)\<close> and
  names a cell that is empty on the input board.
\<close>

theorem findBlockingMoves_playable:
  assumes "t \<in> set (findBlockingMoves r b defender)"
  shows "0 \<le> mv_x (threat_move t) \<and> mv_x (threat_move t) < 12
       \<and> 0 \<le> mv_y (threat_move t) \<and> mv_y (threat_move t) < 12
       \<and> getCellState b (mv_x (threat_move t)) (mv_y (threat_move t)) = 0"
proof -
  from assms obtain key sev where ks: "(key, sev) \<in> set (threatMap (buildGrid b defender))"
    and t: "t = ThreatMove (Move (key mod 12) (key div 12)) sev"
    by (auto simp: findBlockingMoves_def Let_def set_stdSortDesc)
  from ks threatMap_playable[of b defender] have "playable b key" by auto
  then obtain x y where "onBoard x y" "key = coordKey x y" "getCellState b x y = 0"
    by (auto simp: playable_def)
  then show ?thesis
    using coordKey_decode[of x y] by (simp add: t onBoard_def)
qed


subsection \<open>Cell view of positions played from the initial board\<close>

definition initCells :: "int \<Rightarrow> int \<Rightarrow> int" where
  "initCells x y =
     (if x < 0 \<or> x \<ge> 12 \<or> y < 0 \<or> y \<ge> 12 then - 1
      else if (x = 6 \<and> y = 6) \<or> (x = 5 \<and> y = 5) then 2
      else if (x = 6 \<and> y = 5) \<or> (x = 5 \<and> y = 6) then 1
      else 0)"

fun cellsAfter :: "(int \<Rightarrow> int \<Rightarrow> int) \<Rightarrow> Player \<Rightarrow> (int \<times> int) list \<Rightarrow> int \<Rightarrow> int \<Rightarrow> int" where
  "cellsAfter c s [] cx cy = c cx cy"
| "cellsAfter c s ((x, y) # ms) cx cy =
     cellsAfter (\<lambda>a b. if a = x \<and> b = y then (if s = Black then 1 else 2) else c a b)
       (otherPlayer s) ms cx cy"

fun legalSeq :: "(int \<Rightarrow> int \<Rightarrow> int) \<Rightarrow> (int \<times> int) list \<Rightarrow> bool" where
  "legalSeq c [] = True"
| "legalSeq c ((x, y) # ms) =
     (onBoard x y \<and> c x y = 0 \<and> legalSeq (\<lambda>a b. if a = x \<and> b = y then 1 else c a b) ms)"

lemma legalSeq_cong:
  "(\<And>a b. (c a b = 0) = (c' a b = 0)) \<Longrightarrow> legalSeq c ms = legalSeq c' ms"
proof (induction ms arbitrary: c c')
  case Nil
  then show ?case by simp
next
  case (Cons m ms)
  obtain x y where [simp]: "m = (x, y)" by (cases m)
  have "legalSeq (\<lambda>a b. if a = x \<and> b = y then 1 else c a b) ms
      = legalSeq (\<lambda>a b. if a = x \<and> b = y then 1 else c' a b) ms"
    by (rule Cons.IH) (simp add: Cons.prems)
  then show ?case by (simp add: Cons.prems)
qed

lemma getCellState_newBoard: "getCellState (newBoard z) = initCells"
proof (intro ext)
  fix x y
  have ons: "onBoard 6 6" "onBoard 5 5" "onBoard 6 5" "onBoard 5 6" by (simp_all add: onBoard_def)
  show "getCellState (newBoard z) x y = initCells x y"
  proof (cases "onBoard x y")
    case True
    have s: "stoneAt (b\<lparr>side_to_move := s\<rparr>) p cx cy = stoneAt b p cx cy" for b s p cx cy
      by (simp add: stoneAt_def)
    have e: "\<not> stoneAt emptyBoard p cx cy" for p cx cy by (simp add: stoneAt_def emptyBoard_def)
    show ?thesis
      using True
      by (auto simp: getCellState_stone newBoard_def s e stoneAt_placeInitial ons initCells_def onBoard_def)
  next
    case False
    then show ?thesis by (auto simp: getCellState_off initCells_def onBoard_def)
  qed
qed

lemma playMoves_cells:
  "legalSeq (getCellState b) ms \<Longrightarrow>
   getCellState (playMoves z b ms) = cellsAfter (getCellState b) (side_to_move b) ms"
proof (induction ms arbitrary: b)
  case Nil
  then show ?case by (simp add: fun_eq_iff)
next
  case (Cons m ms)
  obtain x y where m: "m = (x, y)" by (cases m)
  from Cons.prems have on: "onBoard x y" and free: "\<not> isOccupied b x y"
    and rest: "legalSeq (\<lambda>a b'. if a = x \<and> b' = y then 1 else getCellState b a b') ms"
    by (auto simp: m empty_iff_not_occupied)
  let ?b' = "snd (makeMove z b x y)"
  have cells: "getCellState ?b' =
      (\<lambda>a b'. if a = x \<and> b' = y then (if side_to_move b = Black then 1 else 2) else getCellState b a b')"
    by (simp add: fun_eq_iff getCellState_makeMove[OF on free])
  have "legalSeq (getCellState ?b') ms"
    using rest by (subst legalSeq_cong[where c' = "\<lambda>a b'. if a = x \<and> b' = y then 1 else getCellState b a b'"])
      (auto simp: cells)
  from Cons.IH[OF this] show ?case
    by (simp add: m cells side_makeMove[OF on free] fun_eq_iff)
qed

definition gridOf :: "(int \<Rightarrow> int \<Rightarrow> int) \<Rightarrow> Player \<Rightarrow> Grid" where
  "gridOf c defender = map (\<lambda>y. map (\<lambda>x. gridCell defender (c x y)) [0..11]) [0..11]"

lemma buildGrid_gridOf: "buildGrid b defender = gridOf (getCellState b) defender"
  by (simp add: buildGrid_def gridOf_def)

definition fourMoves :: "(int \<times> int) list" where
  "fourMoves = [(11, 0), (0, 1), (11, 1), (1, 1), (11, 2), (2, 1), (11, 3), (3, 1)]"

definition fourBoard :: Board where
  "fourBoard = playMoves sampleZobrist (newBoard sampleZobrist) fourMoves"

lemma fourBoard_cells: "getCellState fourBoard = cellsAfter initCells Black fourMoves"
proof -
  have "legalSeq initCells fourMoves" by code_simp
  then show ?thesis
    unfolding fourBoard_def using playMoves_cells[of "newBoard sampleZobrist" fourMoves sampleZobrist]
    by (simp add: getCellState_newBoard side_newBoard)
qed

lemma fourBoard_threatMap:
  "threatMap (gridOf (cellsAfter initCells Black fourMoves) Black) = [(16, 500000), (17, 60000)]"
  by code_simp

lemma fourBoard_threats:
  "findBlockingMoves keepOrder fourBoard Black
     = [ThreatMove (Move 4 1) 500000, ThreatMove (Move 5 1) 60000]"
  by (simp add: findBlockingMoves_def buildGrid_gridOf fourBoard_cells fourBoard_threatMap
      stdSortDesc_def reordered_keepOrder)

theorem findBlockingMoves_playable_witness:
  "ThreatMove (Move 4 1) 500000 \<in> set (findBlockingMoves keepOrder fourBoard Black)
   \<and> getCellState fourBoard 4 1 = 0"
proof -
  have mem: "ThreatMove (Move 4 1) 500000 \<in> set (findBlockingMoves keepOrder fourBoard Black)"
    by (simp add: fourBoard_threats)
  from findBlockingMoves_playable[OF mem] mem show ?thesis by simp
qed


subsection \<open>Window rules of findBlockingMoves\<close>

definition cellCoord :: "LineContext \<Rightarrow> int \<Rightarrow> int \<times> int" where
  "cellCoord ctx k = (xStart ctx + k * ctx_dx ctx, yStart ctx + k * ctx_dy ctx)"

definition addNom :: "(int \<times> int) list \<Rightarrow> (int \<times> int) \<times> int \<Rightarrow> (int \<times> int) list" where
  "addNom best n = addMoveIfStronger (fst (fst n)) (snd (fst n)) (snd n) best"

definition windowNoms :: "Grid \<Rightarrow> LineContext \<Rightarrow> int \<Rightarrow> ((int \<times> int) \<times> int) list" where
  "windowNoms grid ctx i =
     (let eo = windowEmpties grid ctx i;
          leftOpen = (i - 1 \<ge> 0 \<and> cellAt grid ctx (i - 1) = 0);
          rightOpen = (i + 5 < ctx_length ctx \<and> cellAt grid ctx (i + 5) = 0)
      in if windowCount grid ctx i (- 1) > 0 then []
         else if windowCount grid ctx i 1 = 4 \<and> int (length eo) = 1
         then [(cellCoord ctx (i + eo ! 0), if leftOpen \<and> rightOpen then OPEN_FOUR else SIMPLE_FOUR)]
         else if windowCount grid ctx i 1 = 3 \<and> int (length eo) = 2
         then (if leftOpen \<and> rightOpen then map (\<lambda>off. (cellCoord ctx (i + off), OPEN_THREE)) eo
               else if leftOpen \<or> rightOpen then map (\<lambda>off. (cellCoord ctx (i + off), BROKEN_THREE)) eo
               else [])
         else [])"

lemma addAtOffset_addNom:
  "addAtOffset ctx i sev best off = addNom best (cellCoord ctx (i + off), sev)"
  by (simp add: addAtOffset_def addNom_def cellCoord_def Let_def)

lemma foldl_addAtOffset:
  "foldl (addAtOffset ctx i sev) best offs
     = foldl addNom best (map (\<lambda>off. (cellCoord ctx (i + off), sev)) offs)"
  by (induction offs arbitrary: best) (simp_all add: addAtOffset_addNom)

lemma processWindow_noms:
  "processWindow grid ctx best i = foldl addNom best (windowNoms grid ctx i)"
  unfolding processWindow_def scanWindow_eq windowNoms_def prod.case Let_def
  by (cases "0 < windowCount grid ctx i (- 1)";
      cases "windowCount grid ctx i 1 = 4 \<and> int (length (windowEmpties grid ctx i)) = 1";
      cases "windowCount grid ctx i 1 = 3 \<and> int (length (windowEmpties grid ctx i)) = 2";
      cases "i - 1 \<ge> 0 \<and> cellAt grid ctx (i - 1) = 0";
      cases "i + 5 < ctx_length ctx \<and> cellAt grid ctx (i + 5) = 0")
     (simp_all only: if_True if_False foldl_addAtOffset addAtOffset_addNom foldl.simps
        simp_thms)

definition lineNoms :: "Grid \<Rightarrow> LineContext \<Rightarrow> ((int \<times> int) \<times> int) list" where
  "lineNoms grid ctx = concat (map (windowNoms grid ctx) [0..ctx_length ctx - 5])"

definition allNoms :: "Grid \<Rightarrow> ((int \<times> int) \<times> int) list" where
  "allNoms grid = concat (map (lineNoms grid) allLines)"

lemma foldl_concat_map:
  "(\<And>b x. f b x = foldl g b (h x)) \<Longrightarrow> foldl f b xs = foldl g b (concat (map h xs))"
  by (induction xs arbitrary: b) simp_all

lemma processLine_noms: "processLine grid ctx best = foldl addNom best (lineNoms grid ctx)"
  unfolding processLine_def lineNoms_def
  by (rule foldl_concat_map) (rule processWindow_noms)

lemma threatMap_noms: "threatMap grid = foldl addNom [] (allNoms grid)"
  unfolding threatMap_def allNoms_def
  by (rule foldl_concat_map) (rule processLine_noms)

text \<open>The fold over the windows as a list of nominations.\<close>

definition nomsFor :: "int \<Rightarrow> ((int \<times> int) \<times> int) list \<Rightarrow> int list" where
  "nomsFor k noms = map snd (filter (\<lambda>n. onBoard (fst (fst n)) (snd (fst n)) \<and> coordKey (fst (fst n)) (snd (fst n)) = k) noms)"

definition bestOf :: "int list \<Rightarrow> int option" where
  "bestOf xs = (if xs = [] then None else Some (Max (set xs)))"

fun optl :: "'a option \<Rightarrow> 'a list" where
  "optl None = []" | "optl (Some v) = [v]"

lemma map_of_addNom:
  "map_of (addNom best ((x, y), s)) k =
     (if onBoard x y \<and> coordKey x y = k
      then Some (case map_of best k of None \<Rightarrow> s | Some old \<Rightarrow> max old s)
      else map_of best k)"
  by (auto simp: addNom_def addMoveIfStronger_def onBoard_def Let_def update_conv' split: option.splits)

lemma bestOf_step:
  "bestOf (optl (Some (case m of None \<Rightarrow> s | Some old \<Rightarrow> max old s)) @ ss) = bestOf (optl m @ s # ss)"
  by (cases m; cases "ss = []") (auto simp: bestOf_def max.assoc)

lemma map_of_fold_addNom:
  "map_of (foldl addNom best noms) k = bestOf (optl (map_of best k) @ nomsFor k noms)"
proof (induction noms arbitrary: best)
  case Nil
  then show ?case by (cases "map_of best k") (simp_all add: nomsFor_def bestOf_def)
next
  case (Cons n noms)
  obtain x y s where n: "n = ((x, y), s)" by (cases n) auto
  show ?case
  proof (cases "onBoard x y \<and> coordKey x y = k")
    case True
    then show ?thesis
      using Cons.IH[of "addNom best n"] bestOf_step[where m="map_of best k" and s=s and ss="nomsFor k noms"]
      by (simp add: n map_of_addNom nomsFor_def)
  next
    case False
    then show ?thesis
      using Cons.IH[of "addNom best n"] by (auto simp: n map_of_addNom nomsFor_def)
  qed
qed

lemma map_of_threatMap: "map_of (threatMap grid) k = bestOf (nomsFor k (allNoms grid))"
  by (simp add: threatMap_noms map_of_fold_addNom)

lemma distinct_addNom: "distinct (map fst best) \<Longrightarrow> distinct (map fst (addNom best n))"
  by (auto simp: addNom_def addMoveIfStronger_def Let_def distinct_update split: option.splits)

lemma distinct_threatMap: "distinct (map fst (threatMap grid))"
proof -
  have "distinct (map fst best) \<Longrightarrow> distinct (map fst (foldl addNom best noms))" for best noms
    by (induction noms arbitrary: best) (simp_all add: distinct_addNom)
  from this[of "[]"] show ?thesis by (simp add: threatMap_noms)
qed


text \<open>Geometry of the scanned lines.\<close>

definition validLine :: "LineContext \<Rightarrow> Dir \<Rightarrow> bool" where
  "validLine ctx d =
     (ctx_dx ctx = dirDx d \<and> ctx_dy ctx = dirDy d
      \<and> (\<forall>k. onBoard (fst (cellCoord ctx k)) (snd (cellCoord ctx k)) = (0 \<le> k \<and> k < ctx_length ctx)))"

lemma validLine_horizontal: "0 \<le> y \<Longrightarrow> y \<le> 11 \<Longrightarrow> validLine (horizontalLine y) Horizontal"
  by (auto simp: validLine_def horizontalLine_def cellCoord_def onBoard_def)

lemma validLine_vertical: "0 \<le> x \<Longrightarrow> x \<le> 11 \<Longrightarrow> validLine (verticalLine x) Vertical"
  by (auto simp: validLine_def verticalLine_def cellCoord_def onBoard_def)

lemma validLine_diagonal: "- 11 \<le> k \<Longrightarrow> k \<le> 11 \<Longrightarrow> validLine (diagonalLine k) DiagDown"
  by (auto simp: validLine_def diagonalLine_def cellCoord_def onBoard_def Let_def max_def min_def)

lemma validLine_antiDiagonal: "0 \<le> s \<Longrightarrow> s \<le> 22 \<Longrightarrow> validLine (antiDiagonalLine s) DiagUp"
  by (auto simp: validLine_def antiDiagonalLine_def cellCoord_def onBoard_def Let_def max_def min_def)

lemma set_allLines:
  "set allLines = horizontalLine ` {0..11} \<union> verticalLine ` {0..11}
      \<union> diagonalLine ` {- 11..11} \<union> antiDiagonalLine ` {0..22}"
  unfolding allLines_def by (simp only: set_append set_map set_upto Un_assoc)

lemma allLines_valid: "ctx \<in> set allLines \<Longrightarrow> \<exists>d. validLine ctx d"
  unfolding set_allLines
  by (auto intro: exI[of _ Horizontal] exI[of _ Vertical] exI[of _ DiagDown] exI[of _ DiagUp]
      simp: validLine_horizontal validLine_vertical validLine_diagonal validLine_antiDiagonal)

lemma allLines_cover:
  assumes "onBoard x y"
  shows "\<exists>ctx \<in> set allLines. validLine ctx d \<and> (\<exists>k. cellCoord ctx k = (x, y))"
proof (cases d)
  case Horizontal
  have "horizontalLine y \<in> set allLines" using assms by (auto simp: set_allLines onBoard_def)
  moreover have "validLine (horizontalLine y) d"
    using assms Horizontal by (auto intro: validLine_horizontal simp: onBoard_def)
  moreover have "cellCoord (horizontalLine y) x = (x, y)"
    by (simp add: cellCoord_def horizontalLine_def)
  ultimately show ?thesis by blast
next
  case Vertical
  have "verticalLine x \<in> set allLines" using assms by (auto simp: set_allLines onBoard_def)
  moreover have "validLine (verticalLine x) d"
    using assms Vertical by (auto intro: validLine_vertical simp: onBoard_def)
  moreover have "cellCoord (verticalLine x) y = (x, y)"
    by (simp add: cellCoord_def verticalLine_def)
  ultimately show ?thesis by blast
next
  case DiagDown
  have "diagonalLine (x - y) \<in> set allLines" using assms by (auto simp: set_allLines onBoard_def)
  moreover have "validLine (diagonalLine (x - y)) d"
    using assms DiagDown by (auto intro: validLine_diagonal simp: onBoard_def)
  moreover have "cellCoord (diagonalLine (x - y)) (min x y) = (x, y)"
    by (auto simp: cellCoord_def diagonalLine_def Let_def max_def min_def)
  ultimately show ?thesis by blast
next
  case DiagUp
  have "antiDiagonalLine (x + y) \<in> set allLines" using assms by (auto simp: set_allLines onBoard_def)
  moreover have "validLine (antiDiagonalLine (x + y)) d"
    using assms DiagUp by (auto intro: validLine_antiDiagonal simp: onBoard_def)
  moreover have "cellCoord (antiDiagonalLine (x + y)) (x - max 0 (x + y - 11)) = (x, y)"
    using assms by (auto simp: cellCoord_def antiDiagonalLine_def Let_def max_def min_def onBoard_def)
  ultimately show ?thesis by blast
qed


text \<open>The nomination rule of a window, read on the board.\<close>

definition stoneCode :: "Player \<Rightarrow> int" where
  "stoneCode p = (if p = Black then 1 else 2)"

definition winCell :: "int \<Rightarrow> int \<Rightarrow> Dir \<Rightarrow> int \<Rightarrow> int \<times> int" where
  "winCell x y d j = (x + j * dirDx d, y + j * dirDy d)"

definition cellIs :: "Board \<Rightarrow> int \<times> int \<Rightarrow> int \<Rightarrow> bool" where
  "cellIs b q v = (onBoard (fst q) (snd q) \<and> getCellState b (fst q) (snd q) = v)"

definition nominates :: "Board \<Rightarrow> Player \<Rightarrow> int \<times> int \<times> Dir \<Rightarrow> int \<times> int \<Rightarrow> int \<Rightarrow> bool" where
  "nominates b defender w c sev =
     (case w of (x, y, d) \<Rightarrow>
        let attacker = otherPlayer defender;
            cells = map (winCell x y d) [0..4];
            openL = cellIs b (winCell x y d (- 1)) 0;
            openR = cellIs b (winCell x y d 5) 0
        in (\<forall>q \<in> set cells. onBoard (fst q) (snd q))
         \<and> (\<forall>q \<in> set cells. \<not> cellIs b q (stoneCode defender))
         \<and> c \<in> set cells \<and> cellIs b c 0
         \<and> ((length (filter (\<lambda>q. cellIs b q (stoneCode attacker)) cells) = 4
              \<and> length (filter (\<lambda>q. cellIs b q 0) cells) = 1
              \<and> sev = (if openL \<and> openR then 1000000 else 500000))
            \<or> (length (filter (\<lambda>q. cellIs b q (stoneCode attacker)) cells) = 3
              \<and> length (filter (\<lambda>q. cellIs b q 0) cells) = 2
              \<and> ((openL \<and> openR \<and> sev = 120000) \<or> (openL \<noteq> openR \<and> sev = 60000)))))"

lemma gridCell_codes:
  assumes "onBoard x y"
  shows "(gridCell defender (getCellState b x y) = 1) = (getCellState b x y = stoneCode (otherPlayer defender))"
    and "(gridCell defender (getCellState b x y) = - 1) = (getCellState b x y = stoneCode defender)"
    and "(gridCell defender (getCellState b x y) = 0) = (getCellState b x y = 0)"
    and "(gridCell defender (getCellState b x y) \<noteq> - 1 \<and> gridCell defender (getCellState b x y) \<noteq> 1)
          = (getCellState b x y = 0)"
  using assms
  by (cases defender; auto simp: gridCell_def getCellState_stone stoneCode_def otherPlayer_def)+

lemma window_correspondence:
  assumes v: "validLine ctx d" and i: "0 \<le> i" "i + 5 \<le> ctx_length ctx"
    and c0: "cellCoord ctx i = (x, y)"
  shows "((c, s) \<in> set (windowNoms (buildGrid b defender) ctx i)) = nominates b defender (x, y, d) c s"
proof -
  let ?g = "buildGrid b defender"
  let ?w = "winCell x y d"
  let ?J = "[0..4] :: int list"
  let ?att = "stoneCode (otherPlayer defender)"
  have coord: "cellCoord ctx (i + j) = ?w j" for j
    using c0 v by (auto simp: cellCoord_def winCell_def validLine_def algebra_simps)
  have on: "onBoard (fst (?w j)) (snd (?w j)) = (0 \<le> i + j \<and> i + j < ctx_length ctx)" for j
  proof -
    from v have "\<forall>k. onBoard (fst (cellCoord ctx k)) (snd (cellCoord ctx k)) = (0 \<le> k \<and> k < ctx_length ctx)"
      unfolding validLine_def by (elim conjE)
    then have "onBoard (fst (cellCoord ctx (i + j))) (snd (cellCoord ctx (i + j)))
        = (0 \<le> i + j \<and> i + j < ctx_length ctx)" by (rule spec)
    then show ?thesis by (simp only: coord)
  qed
  have onJ: "onBoard (fst (?w j)) (snd (?w j))" if "j \<in> set ?J" for j
  proof -
    from that have "0 \<le> j" "j \<le> 4" by (simp_all only: set_upto atLeastAtMost_iff)
    then show ?thesis using i by (simp add: on)
  qed
  have at: "cellAt ?g ctx (i + j) = gridCell defender (getCellState b (fst (?w j)) (snd (?w j)))"
    if "onBoard (fst (?w j)) (snd (?w j))" for j
  proof -
    have "fst (cellCoord ctx (i + j)) = fst (?w j)" "snd (cellCoord ctx (i + j)) = snd (?w j)"
      by (simp_all only: coord)
    then have "cellAt ?g ctx (i + j) = gridAt ?g (fst (?w j)) (snd (?w j))"
      by (simp add: cellAt_def Let_def cellCoord_def)
    then show ?thesis by (simp only: gridAt_buildGrid[OF that])
  qed
  have isA: "(cellAt ?g ctx (i + j) = 1) = cellIs b (?w j) ?att"
    and isD: "(cellAt ?g ctx (i + j) = - 1) = cellIs b (?w j) (stoneCode defender)"
    and isE: "(cellAt ?g ctx (i + j) \<noteq> - 1 \<and> cellAt ?g ctx (i + j) \<noteq> 1) = cellIs b (?w j) 0"
    if "j \<in> set ?J" for j
    using onJ[OF that] gridCell_codes[OF onJ[OF that], of defender b]
    by (simp_all only: at[OF onJ[OF that]] cellIs_def simp_thms)
  have cntA: "windowCount ?g ctx i 1 = int (length (filter (\<lambda>q. cellIs b q ?att) (map ?w ?J)))"
    unfolding windowCount_def filter_map length_map comp_def
    by (simp only: isA cong: filter_cong)
  have cntD: "(0 < windowCount ?g ctx i (- 1)) = (\<exists>q \<in> set (map ?w ?J). cellIs b q (stoneCode defender))"
  proof -
    have "filter (\<lambda>j. cellAt ?g ctx (i + j) = - 1) ?J = filter (\<lambda>j. cellIs b (?w j) (stoneCode defender)) ?J"
      by (rule filter_cong) (simp_all only: isD)
    then have "(0 < windowCount ?g ctx i (- 1)) = (filter (\<lambda>j. cellIs b (?w j) (stoneCode defender)) ?J \<noteq> [])"
      unfolding windowCount_def by simp
    also have "\<dots> = (\<exists>q \<in> set (map ?w ?J). cellIs b q (stoneCode defender))"
      by (simp only: filter_empty_conv set_map) blast
    finally show ?thesis .
  qed
  have eo: "windowEmpties ?g ctx i = filter (\<lambda>j. cellIs b (?w j) 0) ?J"
    unfolding windowEmpties_def by (rule filter_cong) (simp_all only: isE)
  have eo_map: "filter (\<lambda>q. cellIs b q 0) (map ?w ?J) = map ?w (windowEmpties ?g ctx i)"
    unfolding eo filter_map comp_def ..
  have lenE: "length (filter (\<lambda>q. cellIs b q 0) (map ?w ?J)) = length (windowEmpties ?g ctx i)"
    unfolding eo_map by simp
  have cIn: "(c \<in> set (map ?w ?J) \<and> cellIs b c 0) = (c \<in> ?w ` set (windowEmpties ?g ctx i))"
    unfolding eo by auto
  have openL: "(i - 1 \<ge> 0 \<and> cellAt ?g ctx (i - 1) = 0) = cellIs b (?w (- 1)) 0"
  proof (cases "i - 1 \<ge> 0")
    case True
    then have o: "onBoard (fst (?w (- 1))) (snd (?w (- 1)))" using i on[of "- 1"] by simp
    from at[OF o] gridCell_codes(3)[OF o] True o show ?thesis by (simp add: cellIs_def)
  next
    case False
    then show ?thesis using on[of "- 1"] by (simp add: cellIs_def)
  qed
  have openR: "(i + 5 < ctx_length ctx \<and> cellAt ?g ctx (i + 5) = 0) = cellIs b (?w 5) 0"
  proof (cases "i + 5 < ctx_length ctx")
    case True
    then have o: "onBoard (fst (?w 5)) (snd (?w 5))" using i on[of 5] by simp
    from at[OF o] gridCell_codes(3)[OF o] True o show ?thesis by (simp add: cellIs_def)
  next
    case False
    then show ?thesis using on[of 5] by (simp add: cellIs_def)
  qed
  have allOn: "\<forall>q \<in> set (map ?w ?J). onBoard (fst q) (snd q)"
    using onJ by auto
  define A where "A = length (filter (\<lambda>q. cellIs b q ?att) (map ?w ?J))"
  define eo where "eo = windowEmpties ?g ctx i"
  define D where "D = (\<exists>q \<in> set (map ?w ?J). cellIs b q (stoneCode defender))"
  define L where "L = cellIs b (?w (- 1)) 0"
  define R where "R = cellIs b (?w 5) 0"
  have spec: "nominates b defender (x, y, d) c s =
      (\<not> D \<and> c \<in> ?w ` set eo
       \<and> ((A = 4 \<and> length eo = 1 \<and> s = (if L \<and> R then 1000000 else 500000))
          \<or> (A = 3 \<and> length eo = 2 \<and> ((L \<and> R \<and> s = 120000) \<or> (L \<noteq> R \<and> s = 60000)))))"
  proof -
    have "nominates b defender (x, y, d) c s =
      ((\<forall>q \<in> set (map ?w ?J). onBoard (fst q) (snd q)) \<and> \<not> D
       \<and> (c \<in> set (map ?w ?J) \<and> cellIs b c 0)
       \<and> ((A = 4 \<and> length (filter (\<lambda>q. cellIs b q 0) (map ?w ?J)) = 1
              \<and> s = (if L \<and> R then 1000000 else 500000))
          \<or> (A = 3 \<and> length (filter (\<lambda>q. cellIs b q 0) (map ?w ?J)) = 2
              \<and> ((L \<and> R \<and> s = 120000) \<or> (L \<noteq> R \<and> s = 60000)))))"
      unfolding nominates_def prod.case Let_def A_def D_def L_def R_def by blast
    then show ?thesis
      using allOn unfolding lenE cIn eo_def by blast
  qed
  have code: "windowNoms ?g ctx i =
      (if D then []
       else if A = 4 \<and> length eo = 1
       then [(cellCoord ctx (i + eo ! 0), if L \<and> R then 1000000 else 500000)]
       else if A = 3 \<and> length eo = 2
       then (if L \<and> R then map (\<lambda>off. (cellCoord ctx (i + off), 120000)) eo
             else if L \<or> R then map (\<lambda>off. (cellCoord ctx (i + off), 60000)) eo
             else [])
       else [])"
    unfolding windowNoms_def Let_def cntA cntD openL openR
      OPEN_FOUR_def SIMPLE_FOUR_def OPEN_THREE_def BROKEN_THREE_def
    by (simp add: A_def eo_def D_def L_def R_def)
  have single: "(c', s') \<in> set [(cellCoord ctx (i + eo ! 0), v)] = (c' \<in> ?w ` set eo \<and> s' = v)"
    if "length eo = 1" for c' s' v
    using that by (cases eo) (auto simp: coord)
  have many: "(c', s') \<in> set (map (\<lambda>off. (cellCoord ctx (i + off), v)) eo) = (c' \<in> ?w ` set eo \<and> s' = v)"
    for c' s' v
    by (auto simp: coord)
  show ?thesis
  proof (cases D)
    case True
    then show ?thesis by (simp add: spec code)
  next
    case nd: False
    show ?thesis
    proof (cases "A = 4 \<and> length eo = 1")
      case True
      then show ?thesis
        unfolding spec code using nd single[of c s] by simp
    next
      case n4: False
      show ?thesis
      proof (cases "A = 3 \<and> length eo = 2")
        case True
        then show ?thesis
          unfolding spec code using nd many[of c s] by auto
      next
        case False
        then show ?thesis unfolding spec code using nd n4 by auto
      qed
    qed
  qed
qed


lemma coordKey_inj:
  "onBoard x y \<Longrightarrow> onBoard x' y' \<Longrightarrow> coordKey x y = coordKey x' y' \<Longrightarrow> x = x' \<and> y = y'"
proof -
  assume a: "onBoard x y" "onBoard x' y'" "coordKey x y = coordKey x' y'"
  then have "y * 12 + x = y' * 12 + x'" by (simp add: coordKey_def)
  moreover have "0 \<le> x" "x < 12" "0 \<le> x'" "x' < 12" using a by (auto simp: onBoard_def)
  ultimately show ?thesis by presburger
qed

lemma nominates_fits:
  "nominates b defender (x, y, d) c s \<Longrightarrow>
     onBoard x y \<and> onBoard (fst (winCell x y d 4)) (snd (winCell x y d 4))
     \<and> onBoard (fst c) (snd c)"
proof -
  assume n: "nominates b defender (x, y, d) c s"
  let ?cells = "map (winCell x y d) [0..4]"
  from n have all: "\<forall>q \<in> set ?cells. onBoard (fst q) (snd q)" and c: "c \<in> set ?cells"
    unfolding nominates_def prod.case Let_def by blast+
  have "(0::int) \<in> set [0..4]" "(4::int) \<in> set [0..4]"
    by (simp_all only: set_upto atLeastAtMost_iff) simp_all
  then have "winCell x y d 0 \<in> set ?cells" "winCell x y d 4 \<in> set ?cells"
    unfolding set_map by blast+
  with all c have "onBoard (fst (winCell x y d 0)) (snd (winCell x y d 0))"
    "onBoard (fst (winCell x y d 4)) (snd (winCell x y d 4))" "onBoard (fst c) (snd c)"
    by blast+
  then show ?thesis by (simp add: winCell_def)
qed

lemma allNoms_nominates:
  "((c, s) \<in> set (allNoms (buildGrid b defender))) = (\<exists>w. nominates b defender w c s)"
proof
  assume "(c, s) \<in> set (allNoms (buildGrid b defender))"
  then obtain ctx i where ctx: "ctx \<in> set allLines" and i: "i \<in> set [0..ctx_length ctx - 5]"
    and mem: "(c, s) \<in> set (windowNoms (buildGrid b defender) ctx i)"
    by (auto simp: allNoms_def lineNoms_def)
  from allLines_valid[OF ctx] obtain d where v: "validLine ctx d" ..
  obtain x y where xy: "cellCoord ctx i = (x, y)" by (cases "cellCoord ctx i")
  from i have "0 \<le> i" "i + 5 \<le> ctx_length ctx" by (simp_all only: set_upto atLeastAtMost_iff) auto
  from window_correspondence[OF v this xy, of c s b defender] mem
  show "\<exists>w. nominates b defender w c s" by blast
next
  assume "\<exists>w. nominates b defender w c s"
  then obtain x y d where n: "nominates b defender (x, y, d) c s" by (metis prod_cases3)
  from nominates_fits[OF n] have on0: "onBoard x y"
    and on4: "onBoard (fst (winCell x y d 4)) (snd (winCell x y d 4))" by simp_all
  from allLines_cover[OF on0, of d] obtain ctx k where ctx: "ctx \<in> set allLines"
    and v: "validLine ctx d" and k: "cellCoord ctx k = (x, y)" by blast
  from v have vk: "onBoard (fst (cellCoord ctx j)) (snd (cellCoord ctx j)) = (0 \<le> j \<and> j < ctx_length ctx)" for j
    unfolding validLine_def by blast
  have "cellCoord ctx (k + 4) = winCell x y d 4"
    using k v by (auto simp: cellCoord_def winCell_def validLine_def algebra_simps)
  with vk[of k] vk[of "k + 4"] on0 on4 k have r: "0 \<le> k" "k + 5 \<le> ctx_length ctx" by auto
  then have kmem: "k \<in> set [0..ctx_length ctx - 5]" by (simp only: set_upto atLeastAtMost_iff) auto
  have mem: "(c, s) \<in> set (windowNoms (buildGrid b defender) ctx k)"
    using window_correspondence[OF v r k, of c s b defender] n by simp
  have "\<exists>i \<in> set [0..ctx_length ctx - 5]. (c, s) \<in> set (windowNoms (buildGrid b defender) ctx i)"
    using mem kmem by (rule bexI)
  then have "(c, s) \<in> set (lineNoms (buildGrid b defender) ctx)"
    by (simp add: lineNoms_def)
  then have "\<exists>l \<in> set allLines. (c, s) \<in> set (lineNoms (buildGrid b defender) l)"
    using ctx by (rule bexI)
  then show "(c, s) \<in> set (allNoms (buildGrid b defender))"
    by (simp add: allNoms_def)
qed

lemma nomsFor_nominates:
  assumes "onBoard cx cy"
  shows "(s \<in> set (nomsFor (coordKey cx cy) (allNoms (buildGrid b defender))))
       = (\<exists>w. nominates b defender w (cx, cy) s)"
proof -
  have "(s \<in> set (nomsFor (coordKey cx cy) (allNoms (buildGrid b defender))))
      = (\<exists>x y. ((x, y), s) \<in> set (allNoms (buildGrid b defender)) \<and> onBoard x y
            \<and> coordKey x y = coordKey cx cy)"
    by (force simp: nomsFor_def image_iff)
  also have "\<dots> = (((cx, cy), s) \<in> set (allNoms (buildGrid b defender)))"
  proof
    assume "\<exists>x y. ((x, y), s) \<in> set (allNoms (buildGrid b defender)) \<and> onBoard x y
            \<and> coordKey x y = coordKey cx cy"
    then obtain x y where m: "((x, y), s) \<in> set (allNoms (buildGrid b defender))"
      and on: "onBoard x y" and eq: "coordKey x y = coordKey cx cy" by blast
    from coordKey_inj[OF on assms eq] m show "((cx, cy), s) \<in> set (allNoms (buildGrid b defender))"
      by simp
  next
    assume "((cx, cy), s) \<in> set (allNoms (buildGrid b defender))"
    then show "\<exists>x y. ((x, y), s) \<in> set (allNoms (buildGrid b defender)) \<and> onBoard x y
            \<and> coordKey x y = coordKey cx cy" using assms by blast
  qed
  finally show ?thesis by (simp only: allNoms_nominates)
qed

lemma bestOf_Some: "(bestOf xs = Some v) = (v \<in> set xs \<and> (\<forall>s \<in> set xs. s \<le> v))"
proof (cases "xs = []")
  case True
  then show ?thesis by (simp add: bestOf_def)
next
  case False
  then have "Max (set xs) \<in> set xs" "\<forall>s \<in> set xs. s \<le> Max (set xs)" by (simp_all add: Max_in)
  then show ?thesis using False
    by (auto simp: bestOf_def intro: antisym Max_eqI[symmetric])
qed

lemma threatMap_entry:
  assumes "onBoard cx cy"
  shows "((coordKey cx cy, sev) \<in> set (threatMap (buildGrid b defender)))
     = ((\<exists>w. nominates b defender w (cx, cy) sev)
        \<and> (\<forall>w s. nominates b defender w (cx, cy) s \<longrightarrow> s \<le> sev))"
proof -
  have "((coordKey cx cy, sev) \<in> set (threatMap (buildGrid b defender)))
      = (map_of (threatMap (buildGrid b defender)) (coordKey cx cy) = Some sev)"
    using distinct_threatMap[of "buildGrid b defender"] by simp
  also have "\<dots> = (sev \<in> set (nomsFor (coordKey cx cy) (allNoms (buildGrid b defender)))
        \<and> (\<forall>s \<in> set (nomsFor (coordKey cx cy) (allNoms (buildGrid b defender))). s \<le> sev))"
    by (simp only: map_of_threatMap bestOf_Some)
  also have "\<dots> = ((\<exists>w. nominates b defender w (cx, cy) sev)
        \<and> (\<forall>w s. nominates b defender w (cx, cy) s \<longrightarrow> s \<le> sev))"
    unfolding Ball_def nomsFor_nominates[OF assms] by blast
  finally show ?thesis .
qed


lemma threatMap_keys_onBoard:
  "(k, v) \<in> set (threatMap (buildGrid b defender)) \<Longrightarrow>
   \<exists>x y. onBoard x y \<and> k = coordKey x y"
proof -
  assume "(k, v) \<in> set (threatMap (buildGrid b defender))"
  with threatMap_playable[of b defender] have "playable b k" by blast
  then show ?thesis unfolding playable_def by blast
qed

lemma decode_coordKey:
  "onBoard x y \<Longrightarrow> Move (coordKey x y mod 12) (coordKey x y div 12) = Move x y"
  using coordKey_decode[of x y] by simp

lemma findBlockingMoves_set:
  "set (findBlockingMoves r b defender)
     = (\<lambda>(k, v). ThreatMove (Move (k mod 12) (k div 12)) v) ` set (threatMap (buildGrid b defender))"
  by (simp add: findBlockingMoves_def Let_def set_stdSortDesc)

lemma findBlockingMoves_member:
  "(ThreatMove (Move cx cy) sev \<in> set (findBlockingMoves r b defender))
     = (onBoard cx cy \<and> (coordKey cx cy, sev) \<in> set (threatMap (buildGrid b defender)))"
proof
  assume "ThreatMove (Move cx cy) sev \<in> set (findBlockingMoves r b defender)"
  then obtain k where k: "(k, sev) \<in> set (threatMap (buildGrid b defender))"
    and m: "Move cx cy = Move (k mod 12) (k div 12)"
    unfolding findBlockingMoves_set by auto
  from threatMap_keys_onBoard[OF k] obtain x y where on: "onBoard x y" and kk: "k = coordKey x y"
    by blast
  from m decode_coordKey[OF on] kk have "cx = x" "cy = y" by simp_all
  then show "onBoard cx cy \<and> (coordKey cx cy, sev) \<in> set (threatMap (buildGrid b defender))"
    using on k kk by simp
next
  assume a: "onBoard cx cy \<and> (coordKey cx cy, sev) \<in> set (threatMap (buildGrid b defender))"
  then have "(\<lambda>(k, v). ThreatMove (Move (k mod 12) (k div 12)) v) (coordKey cx cy, sev)
      \<in> set (findBlockingMoves r b defender)"
    unfolding findBlockingMoves_set by (intro imageI) simp
  then show "ThreatMove (Move cx cy) sev \<in> set (findBlockingMoves r b defender)"
    using a decode_coordKey[of cx cy] by simp
qed

lemma decode_inj:
  "inj_on (\<lambda>k. Move (k mod 12) (k div 12)) (fst ` set (threatMap (buildGrid b defender)))"
proof (rule inj_onI)
  let ?tm = "threatMap (buildGrid b defender)"
  fix k k' assume a: "k \<in> fst ` set ?tm" "k' \<in> fst ` set ?tm"
    and eq: "Move (k mod 12) (k div 12) = Move (k' mod 12) (k' div 12)"
  from a(1) obtain v where v: "(k, v) \<in> set ?tm" by force
  from a(2) obtain v' where v': "(k', v') \<in> set ?tm" by force
  from threatMap_keys_onBoard[OF v] obtain x y where 1: "onBoard x y" "k = coordKey x y" by blast
  from threatMap_keys_onBoard[OF v'] obtain x' y' where 2: "onBoard x' y'" "k' = coordKey x' y'" by blast
  from eq have "x = x'" "y = y'"
    unfolding 1 2 decode_coordKey[OF 1(1)] decode_coordKey[OF 2(1)] by simp_all
  then show "k = k'" by (simp add: 1 2)
qed

lemma threat_move_decode:
  "map threat_move (map (\<lambda>(k, v). ThreatMove (Move (k mod 12) (k div 12)) v) tm)
     = map (\<lambda>k. Move (k mod 12) (k div 12)) (map fst tm)"
  by (induction tm) auto

lemma findBlockingMoves_distinct: "distinct (map threat_move (findBlockingMoves r b defender))"
proof -
  let ?tm = "threatMap (buildGrid b defender)"
  let ?f = "\<lambda>(k, v). ThreatMove (Move (k mod 12) (k div 12)) v"
  have "distinct (map (\<lambda>k. Move (k mod 12) (k div 12)) (map fst ?tm))"
    using distinct_threatMap[of "buildGrid b defender"] decode_inj[of b defender]
    by (simp only: distinct_map set_map simp_thms)
  then have d: "distinct (map threat_move (map ?f ?tm))"
    by (simp only: threat_move_decode)
  have "mset (findBlockingMoves r b defender) = mset (map ?f ?tm)"
    unfolding findBlockingMoves_def Let_def by (rule mset_stdSortDesc)
  then have "mset (map threat_move (findBlockingMoves r b defender)) = mset (map threat_move (map ?f ?tm))"
    by (simp only: mset_map)
  from mset_eq_imp_distinct_iff[OF this] d show ?thesis by blast
qed


lemma nominates_le: "nominates b defender w c s \<Longrightarrow> s \<le> 1000000"
  unfolding nominates_def Let_def by (cases w) (auto split: if_splits)

lemma upto_0_4: "[0..4] = [0, 1, 2, 3, 4 :: int]"
  by code_simp

lemma cellIs_unique: "cellIs b q v \<Longrightarrow> cellIs b q v' \<Longrightarrow> v = v'"
  by (simp add: cellIs_def)

lemma stoneCode_facts:
  "stoneCode (otherPlayer defender) \<noteq> 0" "stoneCode defender \<noteq> 0"
  "stoneCode (otherPlayer defender) \<noteq> stoneCode defender"
  by (cases defender; simp add: stoneCode_def otherPlayer_def)+

lemma nominates_four:
  assumes e: "e \<in> {0..4}" "cellIs b (winCell x y d e) 0"
    and att: "\<And>j. j \<in> {0..4} \<Longrightarrow> j \<noteq> e \<Longrightarrow> cellIs b (winCell x y d j) (stoneCode (otherPlayer defender))"
  shows "nominates b defender (x, y, d) (winCell x y d e)
           (if cellIs b (winCell x y d (- 1)) 0 \<and> cellIs b (winCell x y d 5) 0 then 1000000 else 500000)"
proof -
  let ?w = "winCell x y d"
  let ?a = "stoneCode (otherPlayer defender)"
  have other: "\<not> cellIs b q v'" if "cellIs b q v" "v \<noteq> v'" for q v v'
    using that cellIs_unique[of b q v v'] by blast
  have notA: "\<not> cellIs b (?w e) ?a" "\<not> cellIs b (?w e) (stoneCode defender)"
    using other[OF e(2)] stoneCode_facts(1,2)[of defender] by simp_all
  have isA: "cellIs b (?w j) ?a" "\<not> cellIs b (?w j) 0" "\<not> cellIs b (?w j) (stoneCode defender)"
    if "j \<in> {0..4}" "j \<noteq> e" for j
    using att[OF that] other[OF att[OF that]] stoneCode_facts(1,3)[of defender] by simp_all
  have onAll: "onBoard (fst (?w j)) (snd (?w j))" if "j \<in> {0..4}" for j
  proof (cases "j = e")
    case True
    then show ?thesis using e(2) by (simp add: cellIs_def)
  next
    case False
    from att[OF that False] show ?thesis by (simp add: cellIs_def)
  qed
  have in04: "(0::int) \<in> {0..4}" "(1::int) \<in> {0..4}" "(2::int) \<in> {0..4}" "(3::int) \<in> {0..4}"
    "(4::int) \<in> {0..4}" by simp_all
  from e(1) have "e = 0 \<or> e = 1 \<or> e = 2 \<or> e = 3 \<or> e = 4"
    unfolding atLeastAtMost_iff by arith
  then consider "e = 0" | "e = 1" | "e = 2" | "e = 3" | "e = 4" by blast
  then show ?thesis
  proof cases
    case 1
    have f: "cellIs b (?w 1) ?a" "\<not> cellIs b (?w 1) 0" "\<not> cellIs b (?w 1) (stoneCode defender)" "cellIs b (?w 2) ?a" "\<not> cellIs b (?w 2) 0" "\<not> cellIs b (?w 2) (stoneCode defender)" "cellIs b (?w 3) ?a" "\<not> cellIs b (?w 3) 0" "\<not> cellIs b (?w 3) (stoneCode defender)" "cellIs b (?w 4) ?a" "\<not> cellIs b (?w 4) 0" "\<not> cellIs b (?w 4) (stoneCode defender)"
      using 1 isA[OF in04(2)] isA[OF in04(3)] isA[OF in04(4)] isA[OF in04(5)] by simp_all
    show ?thesis
      unfolding nominates_def prod.case Let_def upto_0_4
      using e(2) notA f onAll[OF in04(1)] onAll[OF in04(2)] onAll[OF in04(3)] onAll[OF in04(4)] onAll[OF in04(5)]
      unfolding 1 by simp
  next
    case 2
    have f: "cellIs b (?w 0) ?a" "\<not> cellIs b (?w 0) 0" "\<not> cellIs b (?w 0) (stoneCode defender)" "cellIs b (?w 2) ?a" "\<not> cellIs b (?w 2) 0" "\<not> cellIs b (?w 2) (stoneCode defender)" "cellIs b (?w 3) ?a" "\<not> cellIs b (?w 3) 0" "\<not> cellIs b (?w 3) (stoneCode defender)" "cellIs b (?w 4) ?a" "\<not> cellIs b (?w 4) 0" "\<not> cellIs b (?w 4) (stoneCode defender)"
      using 2 isA[OF in04(1)] isA[OF in04(3)] isA[OF in04(4)] isA[OF in04(5)] by simp_all
    show ?thesis
      unfolding nominates_def prod.case Let_def upto_0_4
      using e(2) notA f onAll[OF in04(1)] onAll[OF in04(2)] onAll[OF in04(3)] onAll[OF in04(4)] onAll[OF in04(5)]
      unfolding 2 by simp
  next
    case 3
    have f: "cellIs b (?w 0) ?a" "\<not> cellIs b (?w 0) 0" "\<not> cellIs b (?w 0) (stoneCode defender)" "cellIs b (?w 1) ?a" "\<not> cellIs b (?w 1) 0" "\<not> cellIs b (?w 1) (stoneCode defender)" "cellIs b (?w 3) ?a" "\<not> cellIs b (?w 3) 0" "\<not> cellIs b (?w 3) (stoneCode defender)" "cellIs b (?w 4) ?a" "\<not> cellIs b (?w 4) 0" "\<not> cellIs b (?w 4) (stoneCode defender)"
      using 3 isA[OF in04(1)] isA[OF in04(2)] isA[OF in04(4)] isA[OF in04(5)] by simp_all
    show ?thesis
      unfolding nominates_def prod.case Let_def upto_0_4
      using e(2) notA f onAll[OF in04(1)] onAll[OF in04(2)] onAll[OF in04(3)] onAll[OF in04(4)] onAll[OF in04(5)]
      unfolding 3 by simp
  next
    case 4
    have f: "cellIs b (?w 0) ?a" "\<not> cellIs b (?w 0) 0" "\<not> cellIs b (?w 0) (stoneCode defender)" "cellIs b (?w 1) ?a" "\<not> cellIs b (?w 1) 0" "\<not> cellIs b (?w 1) (stoneCode defender)" "cellIs b (?w 2) ?a" "\<not> cellIs b (?w 2) 0" "\<not> cellIs b (?w 2) (stoneCode defender)" "cellIs b (?w 4) ?a" "\<not> cellIs b (?w 4) 0" "\<not> cellIs b (?w 4) (stoneCode defender)"
      using 4 isA[OF in04(1)] isA[OF in04(2)] isA[OF in04(3)] isA[OF in04(5)] by simp_all
    show ?thesis
      unfolding nominates_def prod.case Let_def upto_0_4
      using e(2) notA f onAll[OF in04(1)] onAll[OF in04(2)] onAll[OF in04(3)] onAll[OF in04(4)] onAll[OF in04(5)]
      unfolding 4 by simp
  next
    case 5
    have f: "cellIs b (?w 0) ?a" "\<not> cellIs b (?w 0) 0" "\<not> cellIs b (?w 0) (stoneCode defender)" "cellIs b (?w 1) ?a" "\<not> cellIs b (?w 1) 0" "\<not> cellIs b (?w 1) (stoneCode defender)" "cellIs b (?w 2) ?a" "\<not> cellIs b (?w 2) 0" "\<not> cellIs b (?w 2) (stoneCode defender)" "cellIs b (?w 3) ?a" "\<not> cellIs b (?w 3) 0" "\<not> cellIs b (?w 3) (stoneCode defender)"
      using 5 isA[OF in04(1)] isA[OF in04(2)] isA[OF in04(3)] isA[OF in04(4)] by simp_all
    show ?thesis
      unfolding nominates_def prod.case Let_def upto_0_4
      using e(2) notA f onAll[OF in04(1)] onAll[OF in04(2)] onAll[OF in04(3)] onAll[OF in04(4)] onAll[OF in04(5)]
      unfolding 5 by simp
  qed
qed

lemma winCell_shift: "winCell (x + dirDx d) (y + dirDy d) d j = winCell x y d (j + 1)"
  by (simp add: winCell_def algebra_simps)

lemma threatMap_reported:
  assumes "nominates b defender w (cx, cy) s"
  shows "\<exists>sev \<ge> s. ThreatMove (Move cx cy) sev \<in> set (findBlockingMoves r b defender)"
proof -
  obtain x y d where w: "w = (x, y, d)" by (cases w)
  from nominates_fits[OF assms[unfolded w]] have on: "onBoard cx cy" by simp
  let ?ns = "nomsFor (coordKey cx cy) (allNoms (buildGrid b defender))"
  from assms have s: "s \<in> set ?ns" unfolding nomsFor_nominates[OF on] by blast
  then have ne: "?ns \<noteq> []" by auto
  let ?m = "Max (set ?ns)"
  have "bestOf ?ns = Some ?m" using ne by (simp add: bestOf_def)
  then have "map_of (threatMap (buildGrid b defender)) (coordKey cx cy) = Some ?m"
    by (simp only: map_of_threatMap)
  then have "(coordKey cx cy, ?m) \<in> set (threatMap (buildGrid b defender))"
    by (rule map_of_SomeD)
  then have "ThreatMove (Move cx cy) ?m \<in> set (findBlockingMoves r b defender)"
    using on by (simp only: findBlockingMoves_member simp_thms)
  moreover have "s \<le> ?m" using s by simp
  ultimately show ?thesis by blast
qed

lemma reported_top:
  assumes "nominates b defender w (cx, cy) 1000000"
  shows "ThreatMove (Move cx cy) 1000000 \<in> set (findBlockingMoves r b defender)"
proof -
  obtain x y d where w: "w = (x, y, d)" by (cases w)
  from nominates_fits[OF assms[unfolded w]] have on: "onBoard cx cy" by simp
  have "(coordKey cx cy, 1000000) \<in> set (threatMap (buildGrid b defender))"
    unfolding threatMap_entry[OF on] using assms nominates_le by blast
  then show ?thesis using on by (simp only: findBlockingMoves_member simp_thms)
qed


lemma shifted_four:
  assumes att: "\<forall>j \<in> {1..4}. cellIs b (winCell x y d j) (stoneCode (otherPlayer defender))"
    and e: "cellIs b (winCell x y d 5) 0"
  shows "nominates b defender (x + dirDx d, y + dirDy d, d) (winCell x y d 5)
           (if cellIs b (winCell x y d 0) 0 \<and> cellIs b (winCell x y d 6) 0 then 1000000 else 500000)"
proof -
  let ?x = "x + dirDx d" and ?y = "y + dirDy d"
  have a: "cellIs b (winCell ?x ?y d j) (stoneCode (otherPlayer defender))"
    if "j \<in> {0..4}" "j \<noteq> 4" for j
  proof -
    from that have "j + 1 \<in> {1..4}" by auto
    with att show ?thesis unfolding winCell_shift by blast
  qed
  have "nominates b defender (?x, ?y, d) (winCell ?x ?y d 4)
           (if cellIs b (winCell ?x ?y d (- 1)) 0 \<and> cellIs b (winCell ?x ?y d 5) 0 then 1000000 else 500000)"
  proof (rule nominates_four)
    show "(4::int) \<in> {0..4}" by simp
    show "cellIs b (winCell ?x ?y d 4) 0" using e by (simp add: winCell_shift)
    fix j :: int assume "j \<in> {0..4}" "j \<noteq> 4"
    then show "cellIs b (winCell ?x ?y d j) (stoneCode (otherPlayer defender))" by (rule a)
  qed
  then show ?thesis by (simp add: winCell_shift)
qed

lemma leading_four:
  assumes att: "\<forall>j \<in> {1..4}. cellIs b (winCell x y d j) (stoneCode (otherPlayer defender))"
    and e: "cellIs b (winCell x y d 0) 0"
  shows "nominates b defender (x, y, d) (winCell x y d 0)
           (if cellIs b (winCell x y d (- 1)) 0 \<and> cellIs b (winCell x y d 5) 0 then 1000000 else 500000)"
proof (rule nominates_four)
  show "(0::int) \<in> {0..4}" by simp
  show "cellIs b (winCell x y d 0) 0" by (rule e)
  fix j :: int assume "j \<in> {0..4}" "j \<noteq> 0"
  then have "j \<in> {1..4}" by auto
  with att show "cellIs b (winCell x y d j) (stoneCode (otherPlayer defender))" by blast
qed


text \<open>
  C6, amended. \<open>nominates b defender w c sev\<close> is the window rule in the claim's words: the
  length-5 window \<open>w\<close> (start cell and direction) lies on the board, holds no defender stone,
  \<open>c\<close> is one of its empty cells, and \<open>sev\<close> is 1,000,000 or 500,000 for four attacker stones
  and one empty (both outside neighbours on-board and empty, or not), 120,000 or 60,000 for
  three attacker stones and two empties (both ends open, or exactly one). For every board,
  defender and tie order of the sort, \<open>findBlockingMoves\<close> reports cell \<open>(cx, cy)\<close> with
  severity \<open>sev\<close> exactly when some window nominates it with \<open>sev\<close> and no window nominates it
  with more; no cell is reported twice; the severities descend. Four attacker stones in a row
  with both end cells empty yield both end cells at 1,000,000 when the cells one step further
  out on both sides are on-board and empty as well. Four in a row with one end cell empty and
  the other not (occupied or off the board) have the empty end nominated at 500,000 by the
  window of the four and that end, and the end is reported with at least that severity.
\<close>

theorem findBlockingMoves_windows:
  "((ThreatMove (Move cx cy) sev \<in> set (findBlockingMoves r b defender))
      = ((\<exists>w. nominates b defender w (cx, cy) sev)
         \<and> (\<forall>w s. nominates b defender w (cx, cy) s \<longrightarrow> s \<le> sev)))
   \<and> distinct (map threat_move (findBlockingMoves r b defender))
   \<and> sorted_wrt (\<lambda>s t. s \<ge> t) (map severity (findBlockingMoves r b defender))
   \<and> ((\<forall>j \<in> {1..4}. cellIs b (winCell x y d j) (stoneCode (otherPlayer defender)))
        \<and> cellIs b (winCell x y d 0) 0 \<and> cellIs b (winCell x y d 5) 0
        \<and> cellIs b (winCell x y d (- 1)) 0 \<and> cellIs b (winCell x y d 6) 0
      \<longrightarrow> ThreatMove (Move x y) 1000000 \<in> set (findBlockingMoves r b defender)
        \<and> ThreatMove (Move (x + 5 * dirDx d) (y + 5 * dirDy d)) 1000000
             \<in> set (findBlockingMoves r b defender))
   \<and> ((\<forall>j \<in> {1..4}. cellIs b (winCell x y d j) (stoneCode (otherPlayer defender)))
        \<and> cellIs b (winCell x y d 5) 0 \<and> \<not> cellIs b (winCell x y d 0) 0
      \<longrightarrow> nominates b defender (x + dirDx d, y + dirDy d, d) (x + 5 * dirDx d, y + 5 * dirDy d) 500000
        \<and> (\<exists>sv \<ge> 500000. ThreatMove (Move (x + 5 * dirDx d) (y + 5 * dirDy d)) sv
               \<in> set (findBlockingMoves r b defender)))
   \<and> ((\<forall>j \<in> {1..4}. cellIs b (winCell x y d j) (stoneCode (otherPlayer defender)))
        \<and> cellIs b (winCell x y d 0) 0 \<and> \<not> cellIs b (winCell x y d 5) 0
      \<longrightarrow> nominates b defender (x, y, d) (x, y) 500000
        \<and> (\<exists>sv \<ge> 500000. ThreatMove (Move x y) sv \<in> set (findBlockingMoves r b defender)))"
proof (intro conjI impI)
  show "(ThreatMove (Move cx cy) sev \<in> set (findBlockingMoves r b defender))
      = ((\<exists>w. nominates b defender w (cx, cy) sev)
         \<and> (\<forall>w s. nominates b defender w (cx, cy) s \<longrightarrow> s \<le> sev))"
  proof (cases "onBoard cx cy")
    case True
    then show ?thesis
      by (simp only: findBlockingMoves_member threatMap_entry[OF True] simp_thms)
  next
    case False
    have "\<not> nominates b defender w (cx, cy) sev" for w
      using nominates_fits[of b defender _ _ _ "(cx, cy)" sev] False by (cases w) auto
    then show ?thesis using False by (simp only: findBlockingMoves_member simp_thms)
  qed
next
  show "distinct (map threat_move (findBlockingMoves r b defender))"
    by (rule findBlockingMoves_distinct)
next
  show "sorted_wrt (\<lambda>s t. s \<ge> t) (map severity (findBlockingMoves r b defender))"
    unfolding findBlockingMoves_def Let_def by (rule sorted_stdSortDesc)
next
  assume h: "(\<forall>j \<in> {1..4}. cellIs b (winCell x y d j) (stoneCode (otherPlayer defender)))
        \<and> cellIs b (winCell x y d 0) 0 \<and> cellIs b (winCell x y d 5) 0
        \<and> cellIs b (winCell x y d (- 1)) 0 \<and> cellIs b (winCell x y d 6) 0"
  from leading_four[of b x y d defender] h
  have "nominates b defender (x, y, d) (x, y) 1000000" by (simp add: winCell_def)
  then show "ThreatMove (Move x y) 1000000 \<in> set (findBlockingMoves r b defender)"
    by (rule reported_top)
  from shifted_four[of b x y d defender] h
  have "nominates b defender (x + dirDx d, y + dirDy d, d) (x + 5 * dirDx d, y + 5 * dirDy d) 1000000"
    by (simp add: winCell_def)
  then show "ThreatMove (Move (x + 5 * dirDx d) (y + 5 * dirDy d)) 1000000
             \<in> set (findBlockingMoves r b defender)"
    by (rule reported_top)
next
  assume h: "(\<forall>j \<in> {1..4}. cellIs b (winCell x y d j) (stoneCode (otherPlayer defender)))
        \<and> cellIs b (winCell x y d 5) 0 \<and> \<not> cellIs b (winCell x y d 0) 0"
  from shifted_four[of b x y d defender] h
  show n: "nominates b defender (x + dirDx d, y + dirDy d, d) (x + 5 * dirDx d, y + 5 * dirDy d) 500000"
    by (simp add: winCell_def)
  show "\<exists>sv \<ge> 500000. ThreatMove (Move (x + 5 * dirDx d) (y + 5 * dirDy d)) sv
               \<in> set (findBlockingMoves r b defender)"
    by (rule threatMap_reported[OF n])
next
  assume h: "(\<forall>j \<in> {1..4}. cellIs b (winCell x y d j) (stoneCode (otherPlayer defender)))
        \<and> cellIs b (winCell x y d 0) 0 \<and> \<not> cellIs b (winCell x y d 5) 0"
  from leading_four[of b x y d defender] h
  show n: "nominates b defender (x, y, d) (x, y) 500000"
    by (simp add: winCell_def)
  show "\<exists>sv \<ge> 500000. ThreatMove (Move x y) sv \<in> set (findBlockingMoves r b defender)"
    by (rule threatMap_reported[OF n])
qed


definition openFourMoves :: "(int \<times> int) list" where
  "openFourMoves = [(11, 4), (3, 0), (11, 6), (4, 0), (11, 8), (5, 0), (11, 10), (6, 0)]"

definition openFourBoard :: Board where
  "openFourBoard = playMoves sampleZobrist (newBoard sampleZobrist) openFourMoves"

definition edgeMoves :: "(int \<times> int) list" where
  "edgeMoves = [(11, 4), (1, 0), (11, 6), (2, 0), (11, 8), (3, 0), (11, 10), (4, 0)]"

definition edgeBoard :: Board where
  "edgeBoard = playMoves sampleZobrist (newBoard sampleZobrist) edgeMoves"

lemma openFourBoard_cells: "getCellState openFourBoard = cellsAfter initCells Black openFourMoves"
proof -
  have "legalSeq initCells openFourMoves" by code_simp
  then show ?thesis
    unfolding openFourBoard_def
    using playMoves_cells[of "newBoard sampleZobrist" openFourMoves sampleZobrist]
    by (simp add: getCellState_newBoard side_newBoard)
qed

lemma edgeBoard_cells: "getCellState edgeBoard = cellsAfter initCells Black edgeMoves"
proof -
  have "legalSeq initCells edgeMoves" by code_simp
  then show ?thesis
    unfolding edgeBoard_def
    using playMoves_cells[of "newBoard sampleZobrist" edgeMoves sampleZobrist]
    by (simp add: getCellState_newBoard side_newBoard)
qed

definition wallMoves :: "(int \<times> int) list" where
  "wallMoves = [(11, 4), (8, 0), (11, 6), (9, 0), (11, 8), (10, 0), (11, 10), (11, 0)]"

definition wallBoard :: Board where
  "wallBoard = playMoves sampleZobrist (newBoard sampleZobrist) wallMoves"

lemma wallBoard_cells: "getCellState wallBoard = cellsAfter initCells Black wallMoves"
proof -
  have "legalSeq initCells wallMoves" by code_simp
  then show ?thesis
    unfolding wallBoard_def
    using playMoves_cells[of "newBoard sampleZobrist" wallMoves sampleZobrist]
    by (simp add: getCellState_newBoard side_newBoard)
qed

lemma edgeBoard_threatMap:
  "threatMap (gridOf (cellsAfter initCells Black edgeMoves) Black)
     = [(0, 500000), (5, 1000000), (6, 60000)]"
  by code_simp

lemma edgeBoard_threats:
  "findBlockingMoves keepOrder edgeBoard Black
     = [ThreatMove (Move 5 0) 1000000, ThreatMove (Move 0 0) 500000, ThreatMove (Move 6 0) 60000]"
  by (simp add: findBlockingMoves_def buildGrid_gridOf edgeBoard_cells edgeBoard_threatMap
      stdSortDesc_def reordered_keepOrder)

lemma int_1_4: "{1..4} = {1, 2, 3, 4 :: int}"
  by auto

lemmas cell_eval = cellIs_def winCell_def onBoard_def initCells_def otherPlayer_def stoneCode_def
  int_1_4

text \<open>
  C6. As stated, the last sentence of the claim fails: the severity 1,000,000 of a window
  needs the cell beyond the window's far end to be empty and on the board, and for the
  window made of an end cell and the four that is the cell two steps past the other end.
  With White on \<open>(1, 0)\<close> to \<open>(4, 0)\<close> and both ends \<open>(0, 0)\<close> and \<open>(5, 0)\<close> empty, the window
  starting at \<open>(0, 0)\<close> has no cell to its left, so \<open>(0, 0)\<close> is reported at 500,000 and only
  \<open>(5, 0)\<close> at 1,000,000.
\<close>

theorem open_four_edge_counterexample:
  "getCellState edgeBoard 0 0 = 0 \<and> getCellState edgeBoard 1 0 = 2
   \<and> getCellState edgeBoard 2 0 = 2 \<and> getCellState edgeBoard 3 0 = 2
   \<and> getCellState edgeBoard 4 0 = 2 \<and> getCellState edgeBoard 5 0 = 0
   \<and> findBlockingMoves keepOrder edgeBoard Black
       = [ThreatMove (Move 5 0) 1000000, ThreatMove (Move 0 0) 500000, ThreatMove (Move 6 0) 60000]
   \<and> ThreatMove (Move 0 0) 1000000 \<notin> set (findBlockingMoves keepOrder edgeBoard Black)"
  by (simp add: edgeBoard_threats edgeBoard_cells edgeMoves_def cell_eval)

theorem findBlockingMoves_windows_witness:
  "(\<exists>w. nominates fourBoard Black w (4, 1) 500000)
   \<and> ThreatMove (Move 2 0) 1000000 \<in> set (findBlockingMoves keepOrder openFourBoard Black)
   \<and> ThreatMove (Move 7 0) 1000000 \<in> set (findBlockingMoves keepOrder openFourBoard Black)
   \<and> nominates fourBoard Black (0, 1, Horizontal) (4, 1) 500000
   \<and> nominates wallBoard Black (7, 0, Horizontal) (7, 0) 500000"
proof -
  have mem: "ThreatMove (Move 4 1) 500000 \<in> set (findBlockingMoves keepOrder fourBoard Black)"
    by (simp add: fourBoard_threats)
  have open4: "(\<forall>j \<in> {1..4}. cellIs openFourBoard (winCell 2 0 Horizontal j) (stoneCode (otherPlayer Black)))
        \<and> cellIs openFourBoard (winCell 2 0 Horizontal 0) 0 \<and> cellIs openFourBoard (winCell 2 0 Horizontal 5) 0
        \<and> cellIs openFourBoard (winCell 2 0 Horizontal (- 1)) 0 \<and> cellIs openFourBoard (winCell 2 0 Horizontal 6) 0"
    by (simp add: openFourBoard_cells openFourMoves_def cell_eval)
  have one: "(\<forall>j \<in> {1..4}. cellIs fourBoard (winCell (- 1) 1 Horizontal j) (stoneCode (otherPlayer Black)))
        \<and> cellIs fourBoard (winCell (- 1) 1 Horizontal 5) 0 \<and> \<not> cellIs fourBoard (winCell (- 1) 1 Horizontal 0) 0"
    by (simp add: fourBoard_cells fourMoves_def cell_eval)
  have lead: "(\<forall>j \<in> {1..4}. cellIs wallBoard (winCell 7 0 Horizontal j) (stoneCode (otherPlayer Black)))
        \<and> cellIs wallBoard (winCell 7 0 Horizontal 0) 0 \<and> \<not> cellIs wallBoard (winCell 7 0 Horizontal 5) 0"
    by (simp add: wallBoard_cells wallMoves_def cell_eval)
  have a: "\<exists>w. nominates fourBoard Black w (4, 1) 500000"
    using findBlockingMoves_windows[of 4 1 500000 keepOrder fourBoard Black 2 0 Horizontal] mem
    by blast
  have b: "ThreatMove (Move 2 0) 1000000 \<in> set (findBlockingMoves keepOrder openFourBoard Black)
     \<and> ThreatMove (Move 7 0) 1000000 \<in> set (findBlockingMoves keepOrder openFourBoard Black)"
    using findBlockingMoves_windows[of 0 0 0 keepOrder openFourBoard Black 2 0 Horizontal] open4
    by simp
  have c: "nominates fourBoard Black (0, 1, Horizontal) (4, 1) 500000"
    using findBlockingMoves_windows[of 0 0 0 keepOrder fourBoard Black "- 1" 1 Horizontal] one
    by simp
  have d: "nominates wallBoard Black (7, 0, Horizontal) (7, 0) 500000"
    using findBlockingMoves_windows[of 0 0 0 keepOrder wallBoard Black 7 0 Horizontal] lead
    by simp
  from a b c d show ?thesis by blast
qed

end
